theory Spec2Isabelle
  imports Main "HOL-Library.Sublist"
begin

section \<open>Go strings and the string functions the program calls\<close>

text \<open>
  A Go string is a sequence of bytes; \<open>len\<close> counts bytes and slicing is by byte offset.
  It is modelled as a \<^typ>\<open>char list\<close> (a \<^typ>\<open>char\<close> is one byte). The functions of package
  \<open>strings\<close> that \<open>main_v2.go\<close> calls are modelled after the standard library: a search
  returns \<^typ>\<open>nat option\<close>, with \<open>None\<close> for Go's \<open>-1\<close>.
\<close>

text \<open>\<open>strings.Index(s, substr)\<close>: the offset of the first occurrence, \<open>-1\<close> if there is none.\<close>

fun Index :: "string \<Rightarrow> string \<Rightarrow> nat option" where
  "Index [] substr = (if substr = [] then Some 0 else None)"
| "Index (c # cs) substr =
     (if prefix substr (c # cs) then Some 0 else map_option Suc (Index cs substr))"

text \<open>\<open>strings.Contains(s, substr)\<close> is \<open>Index(s, substr) >= 0\<close>.\<close>

definition Contains :: "string \<Rightarrow> string \<Rightarrow> bool" where
  "Contains s substr = (Index s substr \<noteq> None)"

text \<open>\<open>strings.HasPrefix\<close>, \<open>strings.HasSuffix\<close>, \<open>strings.TrimPrefix\<close>, \<open>strings.TrimSuffix\<close>.\<close>

definition HasPrefix :: "string \<Rightarrow> string \<Rightarrow> bool" where
  "HasPrefix s p = (length p \<le> length s \<and> take (length p) s = p)"

definition HasSuffix :: "string \<Rightarrow> string \<Rightarrow> bool" where
  "HasSuffix s suf = (length suf \<le> length s \<and> drop (length s - length suf) s = suf)"

definition TrimPrefix :: "string \<Rightarrow> string \<Rightarrow> string" where
  "TrimPrefix s p = (if HasPrefix s p then drop (length p) s else s)"

definition TrimSuffix :: "string \<Rightarrow> string \<Rightarrow> string" where
  "TrimSuffix s suf = (if HasSuffix s suf then take (length s - length suf) s else s)"

text \<open>
  \<open>strings.Split(s, sep)\<close> cuts \<open>s\<close> at every occurrence of \<open>sep\<close>, found from left to
  right with \<open>strings.Index\<close>. With an empty separator Go cuts after every UTF-8 sequence; the
  program only calls it with \<open>"*"\<close>, and the model covers the empty separator for single-byte
  sequences only. The recursion is on a strictly shorter rest, which the bound on
  \<open>Index\<close> shows.
\<close>

lemma Index_Some_bound: "Index s substr = Some m \<Longrightarrow> m + length substr \<le> length s"
proof (induction s arbitrary: m)
  case Nil
  then show ?case by (simp split: if_splits)
next
  case (Cons c cs)
  then show ?case
    by (auto split: if_splits dest: prefix_length_le)
qed

function Split :: "string \<Rightarrow> string \<Rightarrow> string list" where
  "Split s sep =
     (if sep = [] then map (\<lambda>c. [c]) s
      else case Index s sep of
             None \<Rightarrow> [s]
           | Some m \<Rightarrow> take m s # Split (drop (m + length sep) s) sep)"
  by pat_completeness auto
termination
proof (relation "measure (\<lambda>(s, sep). length s)", goal_cases)
  case 1
  show ?case by simp
next
  case (2 s sep m)
  from 2 have "m + length sep \<le> length s"
    by (auto dest: Index_Some_bound)
  moreover from 2 have "0 < length sep" by simp
  ultimately show ?case by (simp del: length_greater_0_conv)
qed

declare Split.simps [simp del]

text \<open>
  \<open>strings.ReplaceAll(s, old, new)\<close> replaces the occurrences of \<open>old\<close>, found from left to
  right with \<open>strings.Index\<close>, each search starting behind the previous occurrence. With an
  empty \<open>old\<close> Go inserts \<open>new\<close> before every UTF-8 sequence and at the end; the program
  never gets there (\<open>highlightMatches\<close> returns first), and the model covers that case for
  single-byte sequences only.
\<close>

function ReplaceAll :: "string \<Rightarrow> string \<Rightarrow> string \<Rightarrow> string" where
  "ReplaceAll s old new =
     (if old = new then s
      else if old = [] then new @ concat (map (\<lambda>c. c # new) s)
      else case Index s old of
             None \<Rightarrow> s
           | Some j \<Rightarrow> take j s @ new @ ReplaceAll (drop (j + length old) s) old new)"
  by pat_completeness auto
termination
proof (relation "measure (\<lambda>(s, old, new). length s)", goal_cases)
  case 1
  show ?case by simp
next
  case (2 s old new j)
  from 2 have "j + length old \<le> length s"
    by (auto dest: Index_Some_bound)
  moreover from 2 have "0 < length old" by simp
  ultimately show ?case by (simp del: length_greater_0_conv)
qed

declare ReplaceAll.simps [simp del]

text \<open>
  \<open>strings.ToLower\<close>. On a string of ASCII bytes only, Go takes a fast path that adds
  \<open>'a' - 'A'\<close> to every byte between \<open>'A'\<close> and \<open>'Z'\<close>. On any other string it returns
  \<open>Map(unicode.ToLower, s)\<close>, which decodes UTF-8 and consults the Unicode case tables; those
  tables are not part of the program, so that path is the parameter \<open>ul\<close>. Nothing is assumed
  about \<open>ul\<close>: in Go it can change the length of a string (the Kelvin sign U+212A, three
  bytes, becomes \<open>k\<close>, one byte).
\<close>

definition isASCII :: "string \<Rightarrow> bool" where
  "isASCII s = list_all (\<lambda>c. (of_char c :: nat) < 128) s"

definition lowerByte :: "char \<Rightarrow> char" where
  "lowerByte c =
     (let n = (of_char c :: nat) in if 65 \<le> n \<and> n \<le> 90 then char_of (n + 32) else c)"

definition ToLower :: "(string \<Rightarrow> string) \<Rightarrow> string \<Rightarrow> string" where
  "ToLower ul s = (if isASCII s then map lowerByte s else ul s)"

section \<open>The line matcher\<close>

text \<open>
  \<open>matchesPattern\<close> of \<open>main_v2.go\<close> (the one of \<open>main.go\<close> is the same text): both
  branches on \<open>fixedStrings\<close> call \<open>strings.Contains\<close>.
\<close>

definition matchesPattern :: "(string \<Rightarrow> string) \<Rightarrow> string \<Rightarrow> string \<Rightarrow> bool \<Rightarrow> bool \<Rightarrow> bool" where
  "matchesPattern ul line pattern fixedStrings ignoreCase =
     (let line' = (if ignoreCase then ToLower ul line else line);
          pattern' = (if ignoreCase then ToLower ul pattern else pattern)
      in if fixedStrings then Contains line' pattern'
         else Contains line' pattern')"

section \<open>The highlight renderer\<close>

text \<open>The ANSI colour codes of \<open>main_v2.go\<close>; \<open>\033\<close> is the byte \<open>0x1B\<close>.\<close>

definition ColorReset :: string where
  "ColorReset = [CHR 0x1B, CHR ''['', CHR ''0'', CHR ''m'']"

definition ColorRed :: string where
  "ColorRed = [CHR 0x1B, CHR ''['', CHR ''3'', CHR ''1'', CHR ''m'']"

definition ColorGreen :: string where
  "ColorGreen = [CHR 0x1B, CHR ''['', CHR ''3'', CHR ''2'', CHR ''m'']"

definition ColorPurple :: string where
  "ColorPurple = [CHR 0x1B, CHR ''['', CHR ''3'', CHR ''5'', CHR ''m'']"

text \<open>
  A slice expression panics when its bounds are out of range: \<open>s[a:]\<close> needs
  \<open>a \<le> len(s)\<close>, and \<open>s[a:b]\<close> needs \<open>a \<le> b \<le> len(s)\<close>. A panic ends the program.
\<close>

datatype 'a outcome = Done 'a | Panic

definition sliceFrom :: "string \<Rightarrow> nat \<Rightarrow> string outcome" where
  "sliceFrom s a = (if a \<le> length s then Done (drop a s) else Panic)"

definition slice :: "string \<Rightarrow> nat \<Rightarrow> nat \<Rightarrow> string outcome" where
  "slice s a b = (if a \<le> b \<and> b \<le> length s then Done (take (b - a) (drop a s)) else Panic)"

text \<open>
  The loop of \<open>highlightIgnoreCase\<close>. \<open>result\<close> is the \<open>strings.Builder\<close>. The loop has no
  bound of its own, so it is a partial function: \<open>None\<close> stands for a run that does not end.
\<close>

partial_function (option) highlightLoop ::
  "string \<Rightarrow> string \<Rightarrow> string \<Rightarrow> string \<Rightarrow> nat \<Rightarrow> string \<Rightarrow> string outcome option" where
  "highlightLoop line pattern lowerLine lowerPattern lastIndex result =
     (case sliceFrom lowerLine lastIndex of
        Panic \<Rightarrow> Some Panic
      | Done rest \<Rightarrow>
          (case Index rest lowerPattern of
             None \<Rightarrow>
               (case sliceFrom line lastIndex of
                  Panic \<Rightarrow> Some Panic
                | Done tail \<Rightarrow> Some (Done (result @ tail)))
           | Some index \<Rightarrow>
               (let actualIndex = lastIndex + index in
                if actualIndex + length pattern > length line then
                  (case sliceFrom line lastIndex of
                     Panic \<Rightarrow> Some Panic
                   | Done tail \<Rightarrow> Some (Done (result @ tail)))
                else
                  (case slice line lastIndex actualIndex of
                     Panic \<Rightarrow> Some Panic
                   | Done seg \<Rightarrow>
                       (case slice line actualIndex (actualIndex + length pattern) of
                          Panic \<Rightarrow> Some Panic
                        | Done original \<Rightarrow>
                            highlightLoop line pattern lowerLine lowerPattern
                              (actualIndex + length pattern)
                              (result @ seg @ ColorRed @ original @ ColorReset))))))"

declare highlightLoop.simps [code]

definition highlightIgnoreCase ::
  "(string \<Rightarrow> string) \<Rightarrow> string \<Rightarrow> string \<Rightarrow> string outcome option" where
  "highlightIgnoreCase ul line pattern =
     (if length line = 0 \<or> length pattern = 0 then Some (Done line)
      else highlightLoop line pattern (ToLower ul line) (ToLower ul pattern) 0 [])"

definition highlightMatches ::
  "(string \<Rightarrow> string) \<Rightarrow> string \<Rightarrow> string \<Rightarrow> bool \<Rightarrow> bool \<Rightarrow> string outcome option" where
  "highlightMatches ul line pattern fixedStrings ignoreCase =
     (if length pattern = 0 then Some (Done line)
      else if ignoreCase then highlightIgnoreCase ul line pattern
      else Some (Done (ReplaceAll line pattern (ColorRed @ pattern @ ColorReset))))"

section \<open>Paths\<close>

text \<open>
  \<open>filepath.Base\<close> on a system whose separator is \<open>/\<close> and which has no volume names: the
  empty path gives \<open>"."\<close>, trailing slashes are dropped, the last element is returned, and a
  path of slashes only gives \<open>"/"\<close>.
\<close>

definition Base :: "string \<Rightarrow> string" where
  "Base path =
     (if path = [] then ''.''
      else let stripped = rev (dropWhile (\<lambda>c. c = CHR ''/'') (rev path));
               elem = rev (takeWhile (\<lambda>c. c \<noteq> CHR ''/'') (rev stripped))
           in if elem = [] then ''/'' else elem)"

text \<open>
  \<open>filepath.Ext\<close>: the suffix of the last element that starts at its last dot, empty when the
  last element has no dot. The loop runs from the end of the path towards its start.
\<close>

fun extFrom :: "string \<Rightarrow> string \<Rightarrow> string" where
  "extFrom [] acc = []"
| "extFrom (c # cs) acc =
     (if c = CHR ''/'' then []
      else if c = CHR ''.'' then c # acc
      else extFrom cs (c # acc))"

definition Ext :: "string \<Rightarrow> string" where
  "Ext path = extFrom (rev path) []"

text \<open>\<open>filepath.ToSlash\<close> where the separator is \<open>/\<close>.\<close>

definition ToSlash :: "string \<Rightarrow> string" where
  "ToSlash path = path"

section \<open>The ignore filter\<close>

text \<open>\<open>matchWildcard\<close> and \<open>matchGitignorePattern\<close> of \<open>main_v2.go\<close>.\<close>

definition matchWildcard :: "string \<Rightarrow> string \<Rightarrow> bool" where
  "matchWildcard text pattern =
     (if pattern = ''*'' then True
      else if HasPrefix pattern ''*.'' then
        (let ext = TrimPrefix pattern ''*'' in HasSuffix text ext)
      else
        (let parts = Split pattern ''*'' in
         if length parts = 2 then HasPrefix text (parts ! 0) \<and> HasSuffix text (parts ! 1)
         else False))"

definition matchGitignorePattern :: "string \<Rightarrow> string \<Rightarrow> bool" where
  "matchGitignorePattern path pattern0 =
     (let pattern = TrimPrefix pattern0 ''/'' in
      if HasPrefix pattern ''!'' then False
      else if HasSuffix pattern ''/'' then Contains path (TrimSuffix pattern ''/'')
      else if Contains pattern ''*'' then matchWildcard path pattern
      else if Contains path pattern then True
      else Base path = pattern)"

section \<open>Scanning files and walking the tree\<close>

text \<open>\<open>strings.Join\<close>.\<close>

fun Join :: "string list \<Rightarrow> string \<Rightarrow> string" where
  "Join [] sep = []"
| "Join [a] sep = a"
| "Join (a # b # rest) sep = a @ sep @ Join (b # rest) sep"

text \<open>\<open>fmt.Sprintf("%d", n)\<close> for a line number, which is never negative.\<close>

fun Sprintf_d :: "nat \<Rightarrow> string" where
  "Sprintf_d n =
     (if n < 10 then [char_of (48 + n)]
      else Sprintf_d (n div 10) @ [char_of (48 + n mod 10)])"

declare Sprintf_d.simps [simp del]

record Config =
  fixedStrings :: bool
  hidden :: bool
  noHeading :: bool
  lineNumber :: bool
  withFilename :: bool
  color :: bool
  ignoreCase :: bool
  respectGitignore :: bool
  pattern :: string
  searchPath :: string

record GitignoreFilter =
  patterns :: "string list"
  basePath :: string

text \<open>
  What the program sees of a file it opens: \<open>os.Open\<close> fails, or it succeeds and every
  read fails (a symbolic link to a directory), or the reads deliver the file's bytes.
\<close>

datatype osfile = OpenFails | ReadFails | Contents string

text \<open>
  What a function called during the walk hands back: \<open>nil\<close>, \<open>filepath.SkipDir\<close>, an error
  of the scanner, or no value at all because the program panicked (\<open>Panicked\<close>) or the call
  did not end (\<open>NoReturn\<close>).
\<close>

datatype ret = RetNil | SkipDir | ErrTooLong | ErrRead | Panicked | NoReturn

text \<open>
  \<open>bufio.Scanner\<close> with the split function \<open>bufio.ScanLines\<close>: a token is the text before the
  next newline, without a trailing carriage return; a last line without newline is a token
  when it is not empty. The buffer never grows beyond \<open>maxTokenSize\<close> bytes, so a line of
  that many bytes or more ends the scan with \<open>ErrTooLong\<close>; the tokens before it have
  been delivered. The result is the list of tokens and whether the scan ended so.
\<close>

definition dropCR :: "string \<Rightarrow> string" where
  "dropCR data = (if data \<noteq> [] \<and> last data = CHR 0x0D then butlast data else data)"

function scanTokens :: "nat \<Rightarrow> string \<Rightarrow> string list \<times> bool" where
  "scanTokens maxTokenSize data =
     (if data = [] then ([], False)
      else case Index data [CHR 0x0A] of
             None \<Rightarrow>
               (if maxTokenSize \<le> length data then ([], True) else ([dropCR data], False))
           | Some i \<Rightarrow>
               (if maxTokenSize \<le> i then ([], True)
                else case scanTokens maxTokenSize (drop (i + 1) data) of
                       (toks, tooLong) \<Rightarrow> (dropCR (take i data) # toks, tooLong)))"
  by pat_completeness auto
termination
proof (relation "measure (\<lambda>(m, data). length data)", goal_cases)
  case 1
  show ?case by simp
next
  case (2 maxTokenSize data i)
  from 2 have "i + 1 \<le> length data"
    using Index_Some_bound [of data "[CHR 0x0A]" i] by simp
  then show ?case by simp
qed

declare scanTokens.simps [simp del]

text \<open>\<open>isBinaryFile\<close>: a read error, which includes the end of an empty file, is not binary.\<close>

definition isBinaryFile :: "osfile \<Rightarrow> bool" where
  "isBinaryFile f =
     (case f of
        Contents data \<Rightarrow>
          (if data = [] then False else list_ex (\<lambda>b. b = CHR 0x00) (take 512 data))
      | _ \<Rightarrow> False)"

definition binaryExts :: "string list" where
  "binaryExts =
     [''.exe'', ''.dll'', ''.so'', ''.dylib'', ''.a'', ''.o'', ''.obj'',
      ''.zip'', ''.tar'', ''.gz'', ''.bz2'', ''.xz'', ''.7z'', ''.rar'',
      ''.jpg'', ''.jpeg'', ''.png'', ''.gif'', ''.bmp'', ''.tiff'', ''.ico'',
      ''.mp3'', ''.mp4'', ''.avi'', ''.mkv'', ''.mov'', ''.wmv'', ''.flv'',
      ''.pdf'', ''.doc'', ''.docx'', ''.xls'', ''.xlsx'', ''.ppt'', ''.pptx'',
      ''.bin'', ''.dat'', ''.db'', ''.sqlite'', ''.sqlite3'',
      ''.pyc'', ''.class'', ''.jar'']"

definition isBinaryFileByExtension :: "(string \<Rightarrow> string) \<Rightarrow> string \<Rightarrow> bool" where
  "isBinaryFileByExtension ul filename =
     (let ext = ToLower ul (Ext filename) in list_ex (\<lambda>binExt. ext = binExt) binaryExts)"

definition isHidden :: "string \<Rightarrow> bool" where
  "isHidden path = (let name = Base path in HasPrefix name ''.'')"

definition shouldIgnoreDirectory :: "string \<Rightarrow> string \<Rightarrow> bool" where
  "shouldIgnoreDirectory path basePath' =
     (let dirName = Base path in
      if dirName = ''.git'' \<or> dirName = ''.idea'' then True
      else list_ex (\<lambda>ignoreDir. dirName = ignoreDir)
             [''.svn'', ''.hg'', ''.bzr'', ''node_modules'', ''.vscode'', ''__pycache__'',
              ''.pytest_cache'', ''build'', ''dist'', ''target''])"

text \<open>
  \<open>loadGitignoreFilter\<close>. The file is the one at \<open>filepath.Join(searchPath, ".gitignore")\<close>; the
  scanner is a default one, whose \<open>maxTokenSize\<close> is \<open>64 * 1024\<close>. \<open>strings.TrimSpace\<close> cuts
  Unicode white space and is the parameter \<open>trim\<close>. The second component is whether the
  returned error is not \<open>nil\<close>.
\<close>

definition loadGitignoreFilter ::
  "(string \<Rightarrow> string) \<Rightarrow> string \<Rightarrow> osfile \<Rightarrow> GitignoreFilter \<times> bool" where
  "loadGitignoreFilter trim searchPath' f =
     (let filter0 = \<lparr>patterns = [], basePath = searchPath'\<rparr> in
      case f of
        OpenFails \<Rightarrow> (filter0, False)
      | ReadFails \<Rightarrow> (filter0, True)
      | Contents data \<Rightarrow>
          (case scanTokens (64 * 1024) data of
             (toks, tooLong) \<Rightarrow>
               (filter0\<lparr>patterns :=
                   filter (\<lambda>line. \<not> (line = [] \<or> HasPrefix line ''#'')) (map trim toks)\<rparr>,
                tooLong)))"

text \<open>
  \<open>shouldIgnore\<close>; the receiver may be \<open>nil\<close>. \<open>filepath.Rel\<close> is the parameter \<open>rel\<close>, with
  \<open>None\<close> for an error.
\<close>

definition shouldIgnore ::
  "(string \<Rightarrow> string \<Rightarrow> string option) \<Rightarrow> GitignoreFilter option \<Rightarrow> string \<Rightarrow> bool" where
  "shouldIgnore rel gf path =
     (case gf of
        None \<Rightarrow> False
      | Some g \<Rightarrow>
          (if length (patterns g) = 0 then False
           else case rel (basePath g) path of
                  None \<Rightarrow> False
                | Some relPath \<Rightarrow>
                    list_ex (\<lambda>pattern'. matchGitignorePattern (ToSlash relPath) pattern')
                      (patterns g)))"

text \<open>\<open>printMatch\<close>: the line written to standard output, newline included.\<close>

definition printMatch ::
  "(string \<Rightarrow> string) \<Rightarrow> string \<Rightarrow> nat \<Rightarrow> string \<Rightarrow> Config \<Rightarrow> string outcome option" where
  "printMatch ul filename lineNum line config =
     (let parts1 = (if withFilename config
                    then [if color config then ColorPurple @ filename @ ColorReset else filename]
                    else []);
          parts = (if lineNumber config
                   then parts1 @ [if color config then ColorGreen @ Sprintf_d lineNum @ ColorReset
                                  else Sprintf_d lineNum]
                   else parts1);
          displayLine = (if color config
                         then highlightMatches ul line (pattern config) (fixedStrings config)
                                (ignoreCase config)
                         else Some (Done line))
      in case displayLine of
           None \<Rightarrow> None
         | Some Panic \<Rightarrow> Some Panic
         | Some (Done shown) \<Rightarrow>
             Some (Done (if length parts > 0
                         then Join parts '':'' @ '':'' @ shown @ [CHR 0x0A]
                         else shown @ [CHR 0x0A])))"

text \<open>
  The loop of \<open>searchInFile\<close> over the scanner's tokens; \<open>lineNum\<close> is the counter before the
  iteration. The result is what was printed and how the loop ended.
\<close>

fun scanLoop ::
  "(string \<Rightarrow> string) \<Rightarrow> string \<Rightarrow> Config \<Rightarrow> nat \<Rightarrow> string list \<Rightarrow> string list \<times> ret" where
  "scanLoop ul filename config lineNum [] = ([], RetNil)"
| "scanLoop ul filename config lineNum (tok # toks) =
     (let lineNum' = lineNum + 1;
          line = (if length tok > 32768 then take 32768 tok @ ''... [line truncated]'' else tok)
      in if matchesPattern ul line (pattern config) (fixedStrings config) (ignoreCase config)
         then (case printMatch ul filename lineNum' line config of
                 None \<Rightarrow> ([], NoReturn)
               | Some Panic \<Rightarrow> ([], Panicked)
               | Some (Done printed) \<Rightarrow>
                   (case scanLoop ul filename config lineNum' toks of
                      (out, r) \<Rightarrow> (printed # out, r)))
         else scanLoop ul filename config lineNum' toks)"

definition searchInFile ::
  "(string \<Rightarrow> string) \<Rightarrow> string \<Rightarrow> Config \<Rightarrow> osfile \<Rightarrow> string list \<times> ret" where
  "searchInFile ul filename config f =
     (case f of
        OpenFails \<Rightarrow> ([], RetNil)
      | ReadFails \<Rightarrow> (if isBinaryFile f then ([], RetNil) else ([], ErrRead))
      | Contents data \<Rightarrow>
          (if isBinaryFile f then ([], RetNil)
           else case scanTokens (10 * 1024 * 1024) data of
                  (toks, tooLong) \<Rightarrow>
                    (case scanLoop ul filename config 0 toks of
                       (out, r) \<Rightarrow>
                         (out, if r \<noteq> RetNil then r else if tooLong then ErrTooLong else RetNil))))"

text \<open>
  The file tree as \<open>filepath.Walk\<close> meets it. Every entry carries the path that \<open>Walk\<close>
  passes to the callback. \<open>DirAt path readErr children\<close> is a directory whose names could
  not be read when \<open>readErr\<close> holds; its children are in the order \<open>Walk\<close> visits them
  (lexical by name). \<open>BrokenAt\<close> is an entry on which \<open>os.Lstat\<close> fails.
\<close>

datatype entry = FileAt string osfile | DirAt string bool "entry list" | BrokenAt string

text \<open>What the callback receives as \<open>info\<close>; \<open>NoInfo\<close> is the \<open>nil\<close> passed with an error.\<close>

datatype info = IsDir | IsFile osfile | NoInfo

text \<open>
  The callback that \<open>search\<close> passes to \<open>filepath.Walk\<close>. Beside the value returned it
  yields the calls of \<open>searchInFile\<close> it made: the path and what was printed for it.
\<close>

definition walkFn ::
  "(string \<Rightarrow> string) \<Rightarrow> (string \<Rightarrow> string \<Rightarrow> string option) \<Rightarrow> Config \<Rightarrow>
   GitignoreFilter option \<Rightarrow> string \<Rightarrow> info \<Rightarrow> bool \<Rightarrow> (string \<times> string list) list \<times> ret" where
  "walkFn ul rel config gitignoreFilter path info' err =
     (if err then ([], RetNil)
      else case info' of
        NoInfo \<Rightarrow> ([], Panicked)
      | IsDir \<Rightarrow>
          (if shouldIgnoreDirectory path (searchPath config) then ([], SkipDir)
           else if \<not> hidden config \<and> isHidden path then ([], SkipDir)
           else if gitignoreFilter \<noteq> None \<and> shouldIgnore rel gitignoreFilter path
           then ([], SkipDir)
           else ([], RetNil))
      | IsFile f \<Rightarrow>
          (if \<not> hidden config \<and> isHidden path then ([], RetNil)
           else if gitignoreFilter \<noteq> None \<and> shouldIgnore rel gitignoreFilter path
           then ([], RetNil)
           else if isBinaryFileByExtension ul path then ([], RetNil)
           else case searchInFile ul path config f of
                  (printed, r) \<Rightarrow> ([(path, printed)], r)))"

text \<open>
  \<open>filepath.Walk\<close>: \<open>walk\<close> visits an entry, \<open>walkChildren\<close> is the loop over the names of a
  directory. A directory is entered only when its names could be read and the callback
  returned \<open>nil\<close>. The loop goes on after \<open>nil\<close>, and after \<open>SkipDir\<close> from a directory or
  from an entry without \<open>info\<close>; anything else ends the walk.
\<close>

fun walk ::
  "(string \<Rightarrow> info \<Rightarrow> bool \<Rightarrow> (string \<times> string list) list \<times> ret) \<Rightarrow> entry \<Rightarrow>
   (string \<times> string list) list \<times> ret"
  and walkChildren ::
  "(string \<Rightarrow> info \<Rightarrow> bool \<Rightarrow> (string \<times> string list) list \<times> ret) \<Rightarrow> entry list \<Rightarrow>
   (string \<times> string list) list \<times> ret" where
  "walk fn (FileAt path f) = fn path (IsFile f) False"
| "walk fn (BrokenAt path) = fn path NoInfo True"
| "walk fn (DirAt path readErr children) =
     (case fn path IsDir readErr of
        (scans1, err1) \<Rightarrow>
          (if readErr \<or> err1 \<noteq> RetNil then (scans1, err1)
           else case walkChildren fn children of
                  (scans2, r) \<Rightarrow> (scans1 @ scans2, r)))"
| "walkChildren fn [] = ([], RetNil)"
| "walkChildren fn (e # es) =
     (case walk fn e of
        (scans1, r) \<Rightarrow>
          (if r = RetNil \<or> (r = SkipDir \<and> (case e of FileAt _ _ \<Rightarrow> False | _ \<Rightarrow> True))
           then case walkChildren fn es of
                  (scans2, r2) \<Rightarrow> (scans1 @ scans2, r2)
           else (scans1, r)))"

definition Walk ::
  "entry \<Rightarrow> (string \<Rightarrow> info \<Rightarrow> bool \<Rightarrow> (string \<times> string list) list \<times> ret) \<Rightarrow>
   (string \<times> string list) list \<times> ret" where
  "Walk root fn = (case walk fn root of (scans, err) \<Rightarrow> (scans, if err = SkipDir then RetNil else err))"

text \<open>
  \<open>search\<close>. \<open>ignoreFile\<close> is the file \<open>.gitignore\<close> under the search path and \<open>root\<close> the
  tree at the search path. The result is the files scanned, in order, each with what was
  printed for it, and the value \<open>search\<close> returns.
\<close>

definition search ::
  "(string \<Rightarrow> string) \<Rightarrow> (string \<Rightarrow> string \<Rightarrow> string option) \<Rightarrow> (string \<Rightarrow> string) \<Rightarrow>
   Config \<Rightarrow> osfile \<Rightarrow> entry \<Rightarrow> (string \<times> string list) list \<times> ret" where
  "search ul rel trim config ignoreFile root =
     (let gitignoreFilter =
            (if respectGitignore config
             then case loadGitignoreFilter trim (searchPath config) ignoreFile of
                    (loaded, err) \<Rightarrow> if err then None else Some loaded
             else None)
      in Walk root (walkFn ul rel config gitignoreFilter))"

section \<open>Notions and inputs of the claims\<close>

text \<open>The paths of the files of a tree: the only entries that can be scanned.\<close>

fun filePaths :: "entry \<Rightarrow> string list" where
  "filePaths (FileAt path f) = [path]"
| "filePaths (DirAt path readErr children) = concat (map filePaths children)"
| "filePaths (BrokenAt path) = []"

text \<open>
  Deleting the emphasis markers from a displayed line: all occurrences of \<open>ColorRed\<close>, then
  all occurrences of \<open>ColorReset\<close>.
\<close>

definition stripMarkers :: "string \<Rightarrow> string" where
  "stripMarkers out = ReplaceAll (ReplaceAll out ColorRed []) ColorReset []"

text \<open>
  Both highlight modes read from left to right: at each position where the pattern matches
  under the byte map \<open>f\<close> (the identity, or \<open>lowerByte\<close>), the next \<open>len(pattern)\<close> bytes of
  the line are wrapped and the scan goes on behind them; elsewhere one byte is copied.
  \<open>strings.ReplaceAll\<close> with the wrapped pattern and the loop of \<open>highlightIgnoreCase\<close>
  on ASCII text are shown to compute this (\<open>ReplaceAll_hlScan\<close>, \<open>highlightLoop_hlScan\<close>).
\<close>

function hlScan :: "(char \<Rightarrow> char) \<Rightarrow> string \<Rightarrow> string \<Rightarrow> string" where
  "hlScan f p [] = []"
| "hlScan f p (c # cs) =
     (if p \<noteq> [] \<and> prefix (map f p) (map f (c # cs))
      then ColorRed @ take (length p) (c # cs) @ ColorReset @ hlScan f p (drop (length p) (c # cs))
      else c # hlScan f p cs)"
  by pat_completeness auto
termination
  by (relation "measure (\<lambda>(f, p, s). length s)") (auto simp: Suc_le_eq)

declare hlScan.simps(2) [simp del]

text \<open>
  A displayed line as a sequence of pieces: text of the line and markers. \<open>render\<close> is the
  displayed line, \<open>content\<close> the text alone. \<open>Cut k\<close> is an end marker with a start marker
  inserted behind its first \<open>k\<close> bytes, as a second application of the highlighter leaves it
  when a match begins inside the end marker.
\<close>

datatype piece = Txt string | Red | Reset | Cut nat

fun render :: "piece list \<Rightarrow> string" where
  "render [] = []"
| "render (Txt s # ps) = s @ render ps"
| "render (Red # ps) = ColorRed @ render ps"
| "render (Reset # ps) = ColorReset @ render ps"
| "render (Cut k # ps) = take k ColorReset @ ColorRed @ drop k ColorReset @ render ps"

fun content :: "piece list \<Rightarrow> string" where
  "content [] = []"
| "content (Txt s # ps) = s @ content ps"
| "content (Red # ps) = content ps"
| "content (Reset # ps) = content ps"
| "content (Cut k # ps) = content ps"

text \<open>The emphasised spans of a displayed line: the text between a start and an end marker.\<close>

fun spans :: "piece list \<Rightarrow> string list" where
  "spans (Red # Txt e # Reset # ps) = e # spans ps"
| "spans (x # ps) = spans ps"
| "spans [] = []"

text \<open>The pieces that remain when every start marker is deleted: a cut end marker closes up.\<close>

fun afterRed :: "piece list \<Rightarrow> piece list" where
  "afterRed [] = []"
| "afterRed (Txt s # ps) = Txt s # afterRed ps"
| "afterRed (Red # ps) = afterRed ps"
| "afterRed (Reset # ps) = Reset # afterRed ps"
| "afterRed (Cut k # ps) = Reset # afterRed ps"

text \<open>
  A pattern (in ignore-case mode: the lower-cased pattern) that a second application of the
  highlighter cannot find across the markers of the first in a harmful way: it has no
  \<open>ESC\<close>; in \<open>ColorRed\<close> followed by the pattern it occurs at the end only; and it does not
  occur in \<open>ColorReset\<close> short of the last byte. A pattern without \<open>ESC\<close> whose first byte is
  none of \<open>[\<close>, \<open>0\<close>, \<open>1\<close>, \<open>3\<close>, \<open>m\<close> is of this kind (\<open>item\<close>, \<open>x1\<close>), and so are \<open>main\<close> and
  \<open>0m\<close>; \<open>m\<close>, \<open>0\<close>, \<open>31m\<close> and \<open>ESC\<close> are not.
\<close>

definition markerSafe :: "string \<Rightarrow> bool" where
  "markerSafe P \<longleftrightarrow> CHR 0x1B \<notin> set P
     \<and> \<not> Contains (tl ColorRed @ butlast P) P
     \<and> \<not> Contains (butlast ColorReset) P"

text \<open>
  A stand-in for the Unicode path of \<open>strings.ToLower\<close> on the two strings with the Kelvin
  sign that the claims about highlighting are evaluated on: the sign becomes \<open>k\<close>.
\<close>

definition kelvinLower :: "string \<Rightarrow> string" where
  "kelvinLower s = (if s = [CHR 0xE2, CHR 0x84, CHR 0xAA] then ''k'' else ''kx'')"

text \<open>A line of 32769 bytes whose only \<open>x\<close> is its last byte.\<close>

definition longLine :: string where
  "longLine = replicate 32768 (CHR ''a'') @ ''x''"

text \<open>
  A directory \<open>root\<close> with the file \<open>a.txt\<close> (lines \<open>foo\<close>, \<open>FooBar\<close>, \<open>baz\<close>) and the
  hidden file \<open>.secret\<close> (content \<open>foo\<close>), searched for \<open>foo\<close> with file names and line
  numbers.
\<close>

definition scenarioConfig :: Config where
  "scenarioConfig =
     \<lparr>fixedStrings = False, hidden = False, noHeading = False, lineNumber = True,
      withFilename = True, color = False, ignoreCase = False, respectGitignore = True,
      pattern = ''foo'', searchPath = ''root''\<rparr>"

definition scenarioTree :: entry where
  "scenarioTree =
     DirAt ''root'' False
       [FileAt ''root/.secret'' (Contents ''foo''),
        FileAt ''root/a.txt'' (Contents [CHR ''f'', CHR ''o'', CHR ''o'', CHR 0x0A,
           CHR ''F'', CHR ''o'', CHR ''o'', CHR ''B'', CHR ''a'', CHR ''r'', CHR 0x0A,
           CHR ''b'', CHR ''a'', CHR ''z'', CHR 0x0A])]"

section \<open>Facts about the string functions\<close>

lemma eq_char_of_iff: "(c = char_of n) = (take_bit 8 (n::nat) = of_char c)"
  using char_of_eq_iff [of n c] by auto

lemma Index_None_iff: "Index s substr = None \<longleftrightarrow> \<not> sublist substr s"
  by (induction s) (auto simp: sublist_Cons_right)

lemma Contains_iff_sublist: "Contains s substr \<longleftrightarrow> sublist substr s"
  by (simp add: Contains_def Index_None_iff)

lemma Contains_iff_substring: "Contains s substr \<longleftrightarrow> (\<exists>u v. s = u @ substr @ v)"
  by (simp add: Contains_iff_sublist sublist_def)

lemma Contains_empty: "Contains s []"
  by (simp add: Contains_iff_sublist)

lemma ToLower_empty: "ToLower ul [] = []"
  by (simp add: ToLower_def isASCII_def)

section \<open>Claims about the line matcher\<close>

text \<open>
  C1. For every line, pattern and value of \<open>ignoreCase\<close>, the match predicate gives the same
  answer with \<open>fixedStrings\<close> set and unset; and with \<open>ignoreCase\<close> unset it holds exactly when
  the pattern occurs in the line as a contiguous run of bytes.
\<close>

theorem matchesPattern_fixedStrings_no_effect:
  "matchesPattern ul L P True ic = matchesPattern ul L P False ic
   \<and> (matchesPattern ul L P fs False \<longleftrightarrow> (\<exists>u v. L = u @ P @ v))"
  by (simp add: matchesPattern_def Contains_iff_substring)

text \<open>
  C2. With \<open>ignoreCase\<close> set, the match predicate holds exactly when the lower-cased pattern
  occurs as a contiguous run of bytes in the lower-cased line, whatever the Unicode path of
  \<open>strings.ToLower\<close> does.
\<close>

theorem matchesPattern_ignoreCase:
  "matchesPattern ul L P fs True \<longleftrightarrow> (\<exists>u v. ToLower ul L = u @ ToLower ul P @ v)"
  by (simp add: matchesPattern_def Contains_iff_substring)

lemma printMatch_empty_pattern:
  "\<exists>printed. printMatch ul filename n line (config\<lparr>pattern := []\<rparr>) = Some (Done printed)"
  by (simp add: printMatch_def highlightMatches_def Let_def)

lemma scanLoop_empty_pattern:
  "length (fst (scanLoop ul filename (config\<lparr>pattern := []\<rparr>) n toks)) = length toks
   \<and> snd (scanLoop ul filename (config\<lparr>pattern := []\<rparr>) n toks) = RetNil"
proof (induction toks arbitrary: n)
  case Nil
  then show ?case by simp
next
  case (Cons tok toks)
  let ?line = "if 32768 < length tok then take 32768 tok @ ''... [line truncated]'' else tok"
  obtain printed where
    p: "printMatch ul filename (Suc n) ?line (config\<lparr>pattern := []\<rparr>) = Some (Done printed)"
    using printMatch_empty_pattern by blast
  have m: "matchesPattern ul ?line [] (fixedStrings config) (ignoreCase config)"
    by (simp add: matchesPattern_def ToLower_empty Contains_empty)
  obtain out r where s: "scanLoop ul filename (config\<lparr>pattern := []\<rparr>) (Suc n) toks = (out, r)"
    by (cases "scanLoop ul filename (config\<lparr>pattern := []\<rparr>) (Suc n) toks")
  then have "length out = length toks" "r = RetNil"
    using Cons [of "Suc n"] by simp_all
  then show ?case
    using p m s by (simp add: Let_def)
qed

text \<open>
  C9. The empty pattern matches every line under every combination of the two flags: the
  matcher has no check that the pattern is non-empty. The loop of \<open>searchInFile\<close> then prints
  every line it is given.
\<close>

theorem matchesPattern_empty_pattern:
  "matchesPattern ul L [] fs ic
   \<and> length (fst (scanLoop ul filename (config\<lparr>pattern := []\<rparr>) n toks)) = length toks
   \<and> snd (scanLoop ul filename (config\<lparr>pattern := []\<rparr>) n toks) = RetNil"
  using scanLoop_empty_pattern [of ul filename config n toks]
  by (simp add: matchesPattern_def ToLower_empty Contains_empty)

section \<open>Facts about the wildcard matcher\<close>

lemma Index_char_Some:
  "Index s [c] = Some m \<longleftrightarrow> (m < length s \<and> s ! m = c \<and> c \<notin> set (take m s))"
proof (induction s arbitrary: m)
  case Nil
  then show ?case by simp
next
  case (Cons a s)
  show ?case
  proof (cases "a = c")
    case True
    then show ?thesis by (cases m) auto
  next
    case False
    then show ?thesis using Cons.IH by (cases m) auto
  qed
qed

lemma Index_char_None: "Index s [c] = None \<longleftrightarrow> c \<notin> set s"
  by (induction s) auto

lemma Index_char_append:
  "c \<notin> set pre \<Longrightarrow> Index (pre @ c # rest) [c] = Some (length pre)"
  by (simp add: Index_char_Some nth_append)

lemma Split_no_sep: "c \<notin> set s \<Longrightarrow> Split s [c] = [s]"
proof -
  assume "c \<notin> set s"
  then have "Index s [c] = None" by (simp add: Index_char_None)
  then show ?thesis by (subst Split.simps) simp
qed

lemma Split_char_append:
  "c \<notin> set pre \<Longrightarrow> Split (pre @ c # rest) [c] = pre # Split rest [c]"
  by (subst Split.simps) (simp add: Index_char_append)

lemma length_Split_char: "length (Split s [c]) = Suc (count_list s c)"
proof (induction "length s" arbitrary: s rule: less_induct)
  case less
  show ?case
  proof (cases "c \<in> set s")
    case False
    then show ?thesis by (simp add: Split_no_sep)
  next
    case True
    then obtain pre rest where s: "s = pre @ c # rest" and pre: "c \<notin> set pre"
      by (meson split_list_first)
    have "length (Split rest [c]) = Suc (count_list rest c)"
      using less s by simp
    then show ?thesis using s pre by (simp add: Split_char_append)
  qed
qed


lemma HasPrefix_Nil: "HasPrefix s []"
  by (simp add: HasPrefix_def)

lemma HasSuffix_Nil: "HasSuffix s []"
  by (simp add: HasSuffix_def)

lemma matchWildcard_star: "matchWildcard text ''*''"
  by (simp add: matchWildcard_def)

lemma matchWildcard_star_dot:
  assumes "HasPrefix pat ''*.''"
  shows "matchWildcard text pat = HasSuffix text (tl pat)"
proof -
  from assms obtain rest where p: "pat = CHR ''*'' # CHR ''.'' # rest"
    by (cases pat; cases "tl pat") (auto simp: HasPrefix_def)
  show ?thesis
    by (simp add: p matchWildcard_def HasPrefix_def TrimPrefix_def)
qed

lemma matchWildcard_one_star:
  assumes "CHR ''*'' \<notin> set pre" "CHR ''*'' \<notin> set suf"
  shows "matchWildcard text (pre @ CHR ''*'' # suf) = (HasPrefix text pre \<and> HasSuffix text suf)"
proof (cases "HasPrefix (pre @ CHR ''*'' # suf) ''*.''")
  case True
  then have pre: "pre = []" using assms(1)
    by (cases pre) (auto simp: HasPrefix_def)
  with True show ?thesis
    by (simp add: matchWildcard_star_dot HasPrefix_Nil)
next
  case False
  have sp: "Split (pre @ CHR ''*'' # suf) ''*'' = [pre, suf]"
    using assms by (simp add: Split_char_append Split_no_sep)
  show ?thesis
  proof (cases "pre @ CHR ''*'' # suf = ''*''")
    case True
    then have "pre = []" "suf = []" by (cases pre; simp)+
    then show ?thesis by (simp add: matchWildcard_star HasPrefix_Nil HasSuffix_Nil)
  next
    case ne: False
    show ?thesis
      unfolding matchWildcard_def using False ne sp by (simp add: Let_def)
  qed
qed

lemma matchWildcard_many_stars:
  assumes "2 \<le> count_list pat (CHR ''*'')" "\<not> HasPrefix pat ''*.''"
  shows "\<not> matchWildcard text pat"
proof -
  have "pat \<noteq> ''*''" using assms(1) by auto
  moreover have "length (Split pat ''*'') \<noteq> 2"
    using assms(1) by (simp add: length_Split_char)
  ultimately show ?thesis
    using assms(2) by (simp add: matchWildcard_def Let_def)
qed

lemma matchGitignorePattern_wildcard:
  assumes "Contains (TrimPrefix pat ''/'') ''*''"
    and "\<not> HasPrefix (TrimPrefix pat ''/'') ''!''"
    and "\<not> HasSuffix (TrimPrefix pat ''/'') ''/''"
  shows "matchGitignorePattern path pat = matchWildcard path (TrimPrefix pat ''/'')"
  using assms by (simp add: matchGitignorePattern_def Let_def)

section \<open>Claims about the ignore filter\<close>

text \<open>
  C4 (as amended). For every path: the pattern \<open>*\<close> matches it; \<open>*suffix\<close> with no other
  \<open>*\<close> matches it exactly when it ends with the suffix; \<open>prefix*suffix\<close> with a single
  \<open>*\<close> matches it exactly when it starts with the prefix and ends with the suffix; a pattern
  that begins with \<open>*.\<close> matches it exactly when it ends with the pattern's text after the
  leading \<open>*\<close>, further \<open>*\<close> being taken literally; any other pattern with two or more
  \<open>*\<close> matches no path. A pattern (after its leading \<open>/\<close> is dropped) that contains \<open>*\<close>,
  does not start with \<open>!\<close> and does not end with \<open>/\<close> is decided by these rules.
\<close>

theorem matchWildcard_shapes:
  "matchWildcard text ''*''
   \<and> (CHR ''*'' \<notin> set suf \<longrightarrow>
        matchWildcard text (CHR ''*'' # suf) = HasSuffix text suf)
   \<and> (CHR ''*'' \<notin> set pre \<and> CHR ''*'' \<notin> set suf \<longrightarrow>
        matchWildcard text (pre @ CHR ''*'' # suf) = (HasPrefix text pre \<and> HasSuffix text suf))
   \<and> (HasPrefix pat ''*.'' \<longrightarrow>
        matchWildcard text pat = HasSuffix text (tl pat))
   \<and> (2 \<le> count_list pat (CHR ''*'') \<and> \<not> HasPrefix pat ''*.'' \<longrightarrow>
        \<not> matchWildcard text pat)
   \<and> (Contains (TrimPrefix pat ''/'') ''*'' \<and> \<not> HasPrefix (TrimPrefix pat ''/'') ''!''
        \<and> \<not> HasSuffix (TrimPrefix pat ''/'') ''/'' \<longrightarrow>
        matchGitignorePattern text pat = matchWildcard text (TrimPrefix pat ''/''))"
  using matchWildcard_star matchWildcard_one_star [of "[]" suf "text"]
    matchWildcard_one_star [of pre suf "text"] matchWildcard_star_dot [of pat "text"]
    matchWildcard_many_stars [of pat "text"] matchGitignorePattern_wildcard [of pat "text"]
  by (simp add: HasPrefix_Nil)

text \<open>
  The rules at concrete paths and patterns: \<open>*.log\<close> matches \<open>build/output.log\<close> and not
  \<open>output.logx\<close>.
\<close>

theorem matchWildcard_shapes_witness:
  "matchWildcard ''build/output.log'' ''*''
   \<and> matchWildcard ''build/output.log'' ''*.log''
   \<and> \<not> matchWildcard ''output.logx'' ''*.log''
   \<and> matchWildcard ''src/main.go'' ''src*.go''
   \<and> \<not> matchWildcard ''lib/main.go'' ''src*.go''
   \<and> matchWildcard ''x.a*b'' ''*.a*b''
   \<and> \<not> matchWildcard ''abc'' ''a*b*c''
   \<and> matchGitignorePattern ''build/output.log'' ''/*.log''
   \<and> \<not> matchGitignorePattern ''output.logx'' ''/*.log''"
  using matchWildcard_shapes [of "''build/output.log''" "''.log''" "''src''" "''/*.log''"]
    matchWildcard_shapes [of "''output.logx''" "''.log''" "''src''" "''/*.log''"]
    matchWildcard_shapes [of "''src/main.go''" "''.go''" "''src''" "''*.a*b''"]
    matchWildcard_shapes [of "''lib/main.go''" "''.go''" "''src''" "''a*b*c''"]
    matchWildcard_shapes [of "''x.a*b''" "''.go''" "''src''" "''*.a*b''"]
    matchWildcard_shapes [of "''abc''" "''.go''" "''src''" "''a*b*c''"]
  by (simp add: HasPrefix_def HasSuffix_def TrimPrefix_def Contains_def)

text \<open>
  C4 as first stated said that a pattern with two or more \<open>*\<close> matches no path. The pattern
  \<open>*.a*b\<close> has two and matches the path \<open>x.a*b\<close>: the branch for \<open>*.\<close> patterns is taken
  before the wildcards are counted.
\<close>

theorem matchWildcard_two_stars_counterexample:
  "2 \<le> count_list ''*.a*b'' (CHR ''*'')
   \<and> matchWildcard ''x.a*b'' ''*.a*b''
   \<and> matchGitignorePattern ''x.a*b'' ''*.a*b''"
  by (simp add: matchGitignorePattern_def matchWildcard_def HasPrefix_def HasSuffix_def
      TrimPrefix_def Contains_def)

section \<open>Facts about scanning and walking\<close>

lemma Contains_char: "Contains s [c] \<longleftrightarrow> c \<in> set s"
  by (simp add: Contains_def Index_char_None)

lemma scanTokens_one_line:
  assumes "CHR 0x0A \<notin> set data" "data \<noteq> []" "length data < m"
  shows "scanTokens m data = ([dropCR data], False)"
proof -
  have "Index data [CHR 0x0A] = None" using assms(1) by (simp add: Index_char_None)
  then show ?thesis using assms by (subst scanTokens.simps) simp
qed

lemma longLine_facts:
  "length longLine = 32769" "CHR 0x0A \<notin> set longLine" "longLine \<noteq> []"
  "dropCR longLine = longLine" "take 32768 longLine = replicate 32768 (CHR ''a'')"
  "\<not> isBinaryFile (Contents longLine)"
  by (simp_all add: longLine_def dropCR_def isBinaryFile_def list_ex_iff)

lemma printMatch_respectGitignore:
  "printMatch ul filename n line (config\<lparr>respectGitignore := b\<rparr>) = printMatch ul filename n line config"
  by (simp add: printMatch_def)

lemma scanLoop_respectGitignore:
  "scanLoop ul filename (config\<lparr>respectGitignore := b\<rparr>) n toks = scanLoop ul filename config n toks"
  by (induction toks arbitrary: n)
     (simp_all add: printMatch_respectGitignore Let_def split: option.splits outcome.splits)

lemma searchInFile_respectGitignore:
  "searchInFile ul filename (config\<lparr>respectGitignore := b\<rparr>) f = searchInFile ul filename config f"
  by (simp add: searchInFile_def scanLoop_respectGitignore split: osfile.splits)

lemma shouldIgnore_empty:
  "patterns g = [] \<Longrightarrow> shouldIgnore rel (Some g) path = False"
  by (simp add: shouldIgnore_def)

lemma shouldIgnore_nil: "shouldIgnore rel None path = False"
  by (simp add: shouldIgnore_def)

lemma walkFn_no_rules:
  "patterns g = [] \<Longrightarrow>
   walkFn ul rel config (Some g) = walkFn ul rel (config\<lparr>respectGitignore := b\<rparr>) None"
  by (intro ext) (simp add: walkFn_def shouldIgnore_empty searchInFile_respectGitignore split: info.splits)

lemma walkFn_nil:
  "walkFn ul rel config None = walkFn ul rel (config\<lparr>respectGitignore := b\<rparr>) None"
  by (intro ext) (simp add: walkFn_def searchInFile_respectGitignore split: info.splits)

lemma walk_scans_all:
  assumes fn: "\<And>path info' err. list_all Q (fst (fn path info' err))"
  shows "list_all Q (fst (walk fn e))" and "list_all Q (fst (walkChildren fn es))"
  using fn
proof (induction fn e and fn es rule: walk_walkChildren.induct)
  case (1 fn path f)
  then show ?case by simp
next
  case (2 fn path)
  then show ?case by simp
next
  case (3 fn path readErr children)
  show ?case
  proof (cases "fn path IsDir readErr")
    case (Pair scans1 err1)
    have s1: "list_all Q scans1"
      using 3(2) [of path IsDir readErr] Pair by simp
    show ?thesis
    proof (cases "readErr \<or> err1 \<noteq> RetNil")
      case True
      then show ?thesis using Pair s1 by auto
    next
      case False
      then have "list_all Q (fst (walkChildren fn children))"
        using 3(1) [OF Pair [symmetric]] 3(2) by blast
      then show ?thesis using Pair s1 False by (auto split: prod.splits)
    qed
  qed
next
  case (4 fn)
  then show ?case by simp
next
  case (5 fn e es)
  have a: "list_all Q (fst (walk fn e))"
    using 5 by blast
  show ?case
  proof (cases "walk fn e")
    case (Pair scans1 r)
    with a have s1: "list_all Q scans1" by simp
    show ?thesis
    proof (cases "r = RetNil \<or> (r = SkipDir \<and> (case e of FileAt _ _ \<Rightarrow> False | _ \<Rightarrow> True))")
      case True
      then have "list_all Q (fst (walkChildren fn es))"
        using 5(2) [OF Pair [symmetric]] 5(3) by blast
      then show ?thesis using s1 Pair True by (auto split: prod.splits)
    next
      case False
      then show ?thesis using s1 Pair by auto
    qed
  qed
qed

lemma walkFn_not_hidden:
  "\<not> hidden config \<Longrightarrow>
   list_all (\<lambda>(p, printed). \<not> isHidden p) (fst (walkFn ul rel config gf path info' err))"
  by (auto simp: walkFn_def split: info.splits prod.splits)

lemma search_not_hidden:
  assumes "\<not> hidden config"
  shows "list_all (\<lambda>(p, printed). \<not> isHidden p) (fst (search ul rel trim config ign root))"
proof -
  have "list_all (\<lambda>(p, printed). \<not> isHidden p) (fst (walk (walkFn ul rel config gf) root))" for gf
    using walk_scans_all(1) [of "\<lambda>(p, printed). \<not> isHidden p" "walkFn ul rel config gf" root]
      walkFn_not_hidden [OF assms] by blast
  then show ?thesis
    by (simp add: search_def Walk_def Let_def split: prod.splits)
      (metis fst_conv)
qed

lemma walk_scans_files:
  assumes fn: "\<And>path info' err. set (map fst (fst (fn path info' err)))
                 \<subseteq> (case info' of IsFile f \<Rightarrow> {path} | _ \<Rightarrow> {})"
  shows "set (map fst (fst (walk fn e))) \<subseteq> set (filePaths e)"
    and "set (map fst (fst (walkChildren fn es))) \<subseteq> set (concat (map filePaths es))"
  using fn
proof (induction fn e and fn es rule: walk_walkChildren.induct)
  case (1 fn path f)
  then show ?case by force
next
  case (2 fn path)
  then show ?case by force
next
  case (3 fn path readErr children)
  have d: "set (map fst (fst (fn path IsDir readErr))) \<subseteq> {}"
    using 3(2) [of path IsDir readErr] by simp
  show ?case
  proof (cases "fn path IsDir readErr")
    case (Pair scans1 err1)
    with d have s1: "scans1 = []" by simp
    show ?thesis
    proof (cases "readErr \<or> err1 \<noteq> RetNil")
      case True
      then show ?thesis using Pair s1 by auto
    next
      case False
      then have "set (map fst (fst (walkChildren fn children)))
                   \<subseteq> set (concat (map filePaths children))"
        using 3(1) [OF Pair [symmetric]] 3(2) by blast
      then show ?thesis using Pair s1 False by (auto split: prod.splits)
    qed
  qed
next
  case (4 fn)
  then show ?case by simp
next
  case (5 fn e es)
  have a: "set (map fst (fst (walk fn e))) \<subseteq> set (filePaths e)"
    using 5 by blast
  show ?case
  proof (cases "walk fn e")
    case (Pair scans1 r)
    show ?thesis
    proof (cases "r = RetNil \<or> (r = SkipDir \<and> (case e of FileAt _ _ \<Rightarrow> False | _ \<Rightarrow> True))")
      case True
      then have b: "set (map fst (fst (walkChildren fn es))) \<subseteq> set (concat (map filePaths es))"
        using 5(2) [OF Pair [symmetric]] 5(3) by blast
      obtain scans2 r2 where w2: "walkChildren fn es = (scans2, r2)"
        by (cases "walkChildren fn es")
      have "fst (walkChildren fn (e # es)) = scans1 @ scans2"
        using Pair True w2 by simp
      moreover have "set (map fst scans1) \<subseteq> set (filePaths e)" using a Pair by simp
      moreover have "set (map fst scans2) \<subseteq> set (concat (map filePaths es))" using b w2 by simp
      ultimately show ?thesis by auto
    next
      case False
      then show ?thesis using a Pair by auto
    qed
  qed
qed

lemma walkFn_scans_files:
  "set (map fst (fst (walkFn ul rel config gf path info' err)))
     \<subseteq> (case info' of IsFile f \<Rightarrow> {path} | _ \<Rightarrow> {})"
  by (auto simp: walkFn_def split: info.splits prod.splits)

lemma search_scans_files:
  "set (map fst (fst (search ul rel trim config ign root))) \<subseteq> set (filePaths root)"
proof -
  have "set (map fst (fst (walk (walkFn ul rel config gf) root))) \<subseteq> set (filePaths root)" for gf
    using walk_scans_files(1) [of "walkFn ul rel config gf" root] walkFn_scans_files by blast
  then show ?thesis
    by (simp add: search_def Walk_def Let_def split: prod.splits)
      (metis fst_conv)
qed

lemma walk_hidden_dir:
  assumes "\<not> hidden config" "isHidden path"
  shows "fst (walk (walkFn ul rel config gf) (DirAt path readErr children)) = []"
  using assms by (simp add: walkFn_def split: prod.splits)

lemmas eval_defs = search_def Walk_def walkFn_def loadGitignoreFilter_def shouldIgnoreDirectory_def
  Base_def isHidden_def HasPrefix_def shouldIgnore_def isBinaryFileByExtension_def Ext_def
  ToLower_def isASCII_def lowerByte_def eq_char_of_iff char_of_eq_iff binaryExts_def
  searchInFile_def isBinaryFile_def scanTokens.simps matchesPattern_def Contains_def
  printMatch_def Sprintf_d.simps dropCR_def

section \<open>Claims about scanning and walking\<close>

text \<open>
  C3. The claim: a scanned line longer than 32768 bytes is cut for display only, and the
  match predicate sees the whole line, so that a line whose only occurrence of the pattern
  lies behind byte 32768 is printed. The loop of \<open>searchInFile\<close> cuts the line first and
  matches the cut line: for the line of 32768 \<open>a\<close> followed by \<open>x\<close> and the pattern \<open>x\<close>
  nothing is printed, although the pattern matches the whole line.
\<close>

theorem searchInFile_long_line:
  "searchInFile ul filename (config\<lparr>pattern := ''x'', ignoreCase := False\<rparr>)
     (Contents (replicate 32768 (CHR ''a'') @ ''x'')) = ([], RetNil)
   \<and> matchesPattern ul (replicate 32768 (CHR ''a'') @ ''x'') ''x'' fs False"
proof -
  have tok: "scanTokens (10 * 1024 * 1024) longLine = ([longLine], False)"
    using scanTokens_one_line [of longLine "10 * 1024 * 1024"] longLine_facts by simp
  have no: "\<not> Contains (replicate 32768 (CHR ''a'') @ ''... [line truncated]'') ''x''"
    by (simp add: Contains_char)
  have "searchInFile ul filename (config\<lparr>pattern := ''x'', ignoreCase := False\<rparr>)
          (Contents longLine) = ([], RetNil)"
    using tok no longLine_facts
    by (simp add: searchInFile_def matchesPattern_def)
  moreover have "matchesPattern ul longLine ''x'' fs False"
    by (simp add: matchesPattern_def Contains_char longLine_def)
  ultimately show ?thesis by (simp add: longLine_def)
qed

text \<open>
  C5. When \<open>.gitignore\<close> cannot be opened, loading gives a filter without rules and no
  error; when it cannot be read, the filter that loading gives has no rules either; a
  filter without rules, like no filter, ignores no path; and the search, when
  the file cannot be opened or when loading ends with any error, gives what it gives when
  the ignore file is not consulted at all.
\<close>

theorem ignore_file_load_never_fails_search:
  "loadGitignoreFilter trim rootPath OpenFails = (\<lparr>patterns = [], basePath = rootPath\<rparr>, False)
   \<and> fst (loadGitignoreFilter trim rootPath ReadFails) = \<lparr>patterns = [], basePath = rootPath\<rparr>
   \<and> \<not> shouldIgnore rel (Some \<lparr>patterns = [], basePath = rootPath\<rparr>) path
   \<and> \<not> shouldIgnore rel None path
   \<and> search ul rel trim config OpenFails root
       = search ul rel trim (config\<lparr>respectGitignore := False\<rparr>) f root
   \<and> (snd (loadGitignoreFilter trim (searchPath config) f) \<longrightarrow>
        search ul rel trim config f root
          = search ul rel trim (config\<lparr>respectGitignore := False\<rparr>) f root)"
proof -
  have a: "loadGitignoreFilter trim rootPath OpenFails = (\<lparr>patterns = [], basePath = rootPath\<rparr>, False)"
    by (simp add: loadGitignoreFilter_def)
  have a': "fst (loadGitignoreFilter trim rootPath ReadFails) = \<lparr>patterns = [], basePath = rootPath\<rparr>"
    by (simp add: loadGitignoreFilter_def)
  have b: "\<not> shouldIgnore rel (Some \<lparr>patterns = [], basePath = rootPath\<rparr>) path"
    by (simp add: shouldIgnore_empty)
  have c: "\<not> shouldIgnore rel None path"
    by (simp add: shouldIgnore_nil)
  have d: "search ul rel trim config OpenFails root
       = search ul rel trim (config\<lparr>respectGitignore := False\<rparr>) f root"
    using walkFn_no_rules [of "\<lparr>patterns = [], basePath = searchPath config\<rparr>" ul rel config False]
      walkFn_nil [of ul rel config False]
    by (simp add: search_def loadGitignoreFilter_def)
  have e: "search ul rel trim config f root
       = search ul rel trim (config\<lparr>respectGitignore := False\<rparr>) f root"
    if failed: "snd (loadGitignoreFilter trim (searchPath config) f)"
  proof -
    obtain loaded where "loadGitignoreFilter trim (searchPath config) f = (loaded, True)"
      using failed by (cases "loadGitignoreFilter trim (searchPath config) f") auto
    then show ?thesis
      using walkFn_nil [of ul rel config False] by (simp add: search_def)
  qed
  from a a' b c d e show ?thesis by blast
qed

text \<open>
  The ignore file that cannot be read, in the scenario: loading reports an error and the
  search is the search without ignore file.
\<close>

theorem ignore_file_load_never_fails_search_witness:
  "snd (loadGitignoreFilter id (searchPath scenarioConfig) ReadFails)
   \<and> search id (\<lambda>a b. None) id scenarioConfig ReadFails scenarioTree
       = search id (\<lambda>a b. None) id (scenarioConfig\<lparr>respectGitignore := False\<rparr>) ReadFails
           scenarioTree
   \<and> search id (\<lambda>a b. None) id scenarioConfig OpenFails scenarioTree
       = ([(''root/a.txt'', [''root/a.txt:1:foo'' @ [CHR 0x0A]])], RetNil)"
  using ignore_file_load_never_fails_search [of id "searchPath scenarioConfig" "\<lambda>a b. None"
      "''root/a.txt''" id scenarioConfig scenarioTree ReadFails]
  by (simp add: scenarioConfig_def scenarioTree_def eval_defs)

text \<open>
  C6. With \<open>hidden\<close> unset no scanned file has a base name that starts with a dot, and
  nothing is scanned at or below a directory with such a name; only files of the tree are
  scanned at all. With \<open>hidden\<close> set the callback scans a file that the ignore filter and
  the extension list let pass, and enters a directory that the built-in list and the
  ignore filter let pass, whatever the name.
\<close>

theorem hidden_entries_excluded:
  "(\<not> hidden config \<longrightarrow>
      list_all (\<lambda>(p, printed). \<not> isHidden p) (fst (search ul rel trim config ign root))
      \<and> (isHidden path \<longrightarrow>
           fst (walk (walkFn ul rel config gf) (DirAt path readErr children)) = []))
   \<and> set (map fst (fst (search ul rel trim config ign root))) \<subseteq> set (filePaths root)
   \<and> (hidden config \<and> \<not> shouldIgnore rel gf path \<and> \<not> isBinaryFileByExtension ul path \<longrightarrow>
        map fst (fst (walkFn ul rel config gf path (IsFile f) False)) = [path])
   \<and> (hidden config \<and> \<not> shouldIgnoreDirectory path (searchPath config)
        \<and> \<not> shouldIgnore rel gf path \<longrightarrow>
        walkFn ul rel config gf path IsDir False = ([], RetNil))"
proof -
  have "map fst (fst (walkFn ul rel config gf path (IsFile f) False)) = [path]"
    if "hidden config" "\<not> shouldIgnore rel gf path" "\<not> isBinaryFileByExtension ul path"
    using that by (simp add: walkFn_def split: prod.splits)
  moreover have "walkFn ul rel config gf path IsDir False = ([], RetNil)"
    if "hidden config" "\<not> shouldIgnoreDirectory path (searchPath config)"
      "\<not> shouldIgnore rel gf path"
    using that by (simp add: walkFn_def)
  ultimately show ?thesis
    using search_not_hidden [of config ul rel trim ign root]
      search_scans_files [of ul rel trim config ign root]
      walk_hidden_dir [of config path ul rel gf readErr children]
    by blast
qed

text \<open>
  The scenario tree: without \<open>hidden\<close> only \<open>root/a.txt\<close> is scanned, with \<open>hidden\<close> the file
  \<open>root/.secret\<close> is scanned as well.
\<close>

theorem hidden_entries_excluded_witness:
  "\<not> hidden scenarioConfig
   \<and> fst (search id (\<lambda>a b. None) id scenarioConfig OpenFails scenarioTree)
       = [(''root/a.txt'', [''root/a.txt:1:foo'' @ [CHR 0x0A]])]
   \<and> list_all (\<lambda>(p, printed). \<not> isHidden p)
        (fst (search id (\<lambda>a b. None) id scenarioConfig OpenFails scenarioTree))
   \<and> isHidden ''root/.secret''
   \<and> map fst (fst (search id (\<lambda>a b. None) id (scenarioConfig\<lparr>hidden := True\<rparr>) OpenFails
        scenarioTree)) = [''root/.secret'', ''root/a.txt'']
   \<and> map fst (fst (walkFn id (\<lambda>a b. None) (scenarioConfig\<lparr>hidden := True\<rparr>) None
        ''root/.secret'' (IsFile (Contents ''foo'')) False)) = [''root/.secret'']"
  using hidden_entries_excluded [of scenarioConfig id "\<lambda>a b. None" id OpenFails scenarioTree
      "''root/.secret''" None False "[]" "Contents ''foo''"]
    hidden_entries_excluded [of "scenarioConfig\<lparr>hidden := True\<rparr>" id "\<lambda>a b. None" id OpenFails
      scenarioTree "''root/.secret''" None False "[]" "Contents ''foo''"]
  by (simp add: scenarioConfig_def scenarioTree_def eval_defs)

section \<open>Facts about highlighting\<close>

lemma Index_prefix: "prefix substr s \<Longrightarrow> Index s substr = Some 0"
  by (cases s) auto

lemma ReplaceAll_Nil: "old \<noteq> [] \<Longrightarrow> ReplaceAll [] old new = []"
  by (subst ReplaceAll.simps) simp

lemma ReplaceAll_prefix:
  assumes "prefix old s" "old \<noteq> []"
  shows "ReplaceAll s old new = new @ ReplaceAll (drop (length old) s) old new"
proof (cases "old = new")
  case True
  have "ReplaceAll s old new = s" "ReplaceAll (drop (length old) s) old new = drop (length old) s"
    using True by (subst ReplaceAll.simps, simp)+
  moreover have "s = old @ drop (length old) s"
    using assms(1) by (auto simp: prefix_def)
  ultimately show ?thesis using True by simp
next
  case False
  then show ?thesis
    using assms by (subst ReplaceAll.simps) (simp add: Index_prefix)
qed

lemma ReplaceAll_skip:
  assumes "\<not> prefix old (c # cs)"
  shows "ReplaceAll (c # cs) old new = c # ReplaceAll cs old new"
proof (cases "old = new")
  case True
  then show ?thesis by (subst ReplaceAll.simps, simp, subst ReplaceAll.simps, simp)
next
  case False
  have ne: "old \<noteq> []" using assms by auto
  show ?thesis
  proof (cases "Index cs old")
    case None
    then show ?thesis
      using False ne assms
      by (subst ReplaceAll.simps, simp, subst ReplaceAll.simps, simp)
  next
    case (Some j)
    then show ?thesis
      using False ne assms
      by (subst ReplaceAll.simps, simp, subst (2) ReplaceAll.simps, simp)
  qed
qed

lemma ReplaceAll_no_occurrence:
  assumes "\<not> Contains s old"
  shows "ReplaceAll s old new = s"
proof -
  have "old \<noteq> []" using assms Contains_empty by auto
  moreover have "Index s old = None" using assms by (simp add: Contains_def)
  ultimately show ?thesis by (subst ReplaceAll.simps) simp
qed


lemma hlScan_no_occurrence:
  "Index (map f s) (map f p) = None \<Longrightarrow> hlScan f p s = s"
proof (induction s)
  case Nil
  then show ?case by simp
next
  case (Cons c cs)
  then show ?case by (auto simp: hlScan.simps(2) split: if_splits)
qed

lemma Index_Some_take: "Index s substr = Some i \<Longrightarrow> take (length substr) (drop i s) = substr"
proof (induction s arbitrary: i)
  case Nil
  then show ?case by (simp split: if_splits)
next
  case (Cons c cs)
  then show ?case
    by (auto simp: prefix_def split: if_splits)
qed

lemma hlScan_first_occurrence:
  assumes "Index (map f s) (map f p) = Some i" "p \<noteq> []"
  shows "hlScan f p s = take i s @ ColorRed @ take (length p) (drop i s) @ ColorReset
           @ hlScan f p (drop (i + length p) s)"
  using assms
proof (induction s arbitrary: i)
  case Nil
  then show ?case by (simp split: if_splits)
next
  case (Cons c cs)
  show ?case
  proof (cases "prefix (map f p) (map f (c # cs))")
    case True
    then have "i = 0" using Cons.prems(1) by simp
    then show ?thesis using True Cons.prems(2) by (simp add: hlScan.simps(2))
  next
    case False
    then obtain j where j: "Index (map f cs) (map f p) = Some j" "i = Suc j"
      using Cons.prems(1) by auto
    have "hlScan f p (c # cs) = c # hlScan f p cs"
      using False by (simp add: hlScan.simps(2))
    then show ?thesis using Cons.IH [OF j(1) Cons.prems(2)] j(2) by simp
  qed
qed

lemma ReplaceAll_hlScan:
  assumes "p \<noteq> []"
  shows "ReplaceAll s p (ColorRed @ p @ ColorReset) = hlScan (\<lambda>c. c) p s"
proof (induction "length s" arbitrary: s rule: less_induct)
  case less
  have neq: "p \<noteq> ColorRed @ p @ ColorReset"
  proof
    assume "p = ColorRed @ p @ ColorReset"
    then have "length p = length (ColorRed @ p @ ColorReset)" by simp
    then show False by (simp add: ColorRed_def)
  qed
  show ?case
  proof (cases "Index s p")
    case None
    then have "hlScan (\<lambda>c. c) p s = s"
      using hlScan_no_occurrence [of "\<lambda>c. c" s p] by simp
    moreover have "ReplaceAll s p (ColorRed @ p @ ColorReset) = s"
      using None assms neq by (subst ReplaceAll.simps) simp
    ultimately show ?thesis by simp
  next
    case (Some i)
    then have b: "i + length p \<le> length s" by (rule Index_Some_bound)
    have "take (length p) (drop i s) = p"
      using Some by (rule Index_Some_take)
    have h: "hlScan (\<lambda>c. c) p s = take i s @ ColorRed @ take (length p) (drop i s) @ ColorReset
           @ hlScan (\<lambda>c. c) p (drop (i + length p) s)"
      using hlScan_first_occurrence [of "\<lambda>c. c" s p i] Some assms by simp
    have "length (drop (i + length p) s) < length s" using b assms by (cases p) auto
    then have ih: "ReplaceAll (drop (i + length p) s) p (ColorRed @ p @ ColorReset)
                = hlScan (\<lambda>c. c) p (drop (i + length p) s)"
      using less by blast
    have "ReplaceAll s p (ColorRed @ p @ ColorReset)
            = take i s @ (ColorRed @ p @ ColorReset)
                @ ReplaceAll (drop (i + length p) s) p (ColorRed @ p @ ColorReset)"
      using Some assms neq by (subst ReplaceAll.simps) simp
    then show ?thesis using h ih \<open>take (length p) (drop i s) = p\<close> by simp
  qed
qed


lemma highlightLoop_hlScan:
  assumes "pat \<noteq> []" "lastIndex \<le> length line"
  shows "highlightLoop line pat (map f line) (map f pat) lastIndex result
           = Some (Done (result @ hlScan f pat (drop lastIndex line)))"
  using assms(2)
proof (induction "length line - lastIndex" arbitrary: lastIndex result rule: less_induct)
  case less
  define rest where "rest = drop lastIndex line"
  have sl: "sliceFrom (map f line) lastIndex = Done (map f rest)"
    using less.prems by (simp add: sliceFrom_def rest_def drop_map)
  have tl: "sliceFrom line lastIndex = Done rest"
    using less.prems by (simp add: sliceFrom_def rest_def)
  show ?case
  proof (cases "Index (map f rest) (map f pat)")
    case None
    then have "hlScan f pat rest = rest" by (rule hlScan_no_occurrence)
    then show ?thesis
      using None sl tl by (subst highlightLoop.simps) (simp add: rest_def)
  next
    case (Some i)
    then have "i + length (map f pat) \<le> length (map f rest)" by (rule Index_Some_bound)
    then have b: "lastIndex + i + length pat \<le> length line"
      using less.prems by (simp add: rest_def)
    have s1: "slice line lastIndex (lastIndex + i) = Done (take i rest)"
      using b by (simp add: slice_def rest_def)
    have s2: "slice line (lastIndex + i) (lastIndex + i + length pat)
                = Done (take (length pat) (drop i rest))"
      using b by (simp add: slice_def rest_def add.commute)
    have "length line - (lastIndex + i + length pat) < length line - lastIndex"
      using b assms(1) by (cases pat) auto
    then have ih: "highlightLoop line pat (map f line) (map f pat) (lastIndex + i + length pat) r
                = Some (Done (r @ hlScan f pat (drop (lastIndex + i + length pat) line)))" for r
      using less.hyps b by blast
    have d: "drop (lastIndex + i + length pat) line = drop (i + length pat) rest"
      by (simp add: rest_def add.commute add.left_commute)
    have h: "hlScan f pat rest = take i rest @ ColorRed @ take (length pat) (drop i rest)
               @ ColorReset @ hlScan f pat (drop (i + length pat) rest)"
      using Some assms(1) by (rule hlScan_first_occurrence)
    have "highlightLoop line pat (map f line) (map f pat) lastIndex result
            = highlightLoop line pat (map f line) (map f pat) (lastIndex + i + length pat)
                (result @ take i rest @ ColorRed @ take (length pat) (drop i rest) @ ColorReset)"
      using Some sl s1 s2 b by (subst highlightLoop.simps) (simp add: Let_def)
    then show ?thesis using ih d h by (simp add: rest_def)
  qed
qed



lemma hlScan_render: "\<exists>ps. hlScan f p s = render ps \<and> content ps = s"
proof (induction f p s rule: hlScan.induct)
  case (1 f p)
  have "hlScan f p [] = render [] \<and> content [] = []" by simp
  then show ?case by blast
next
  case (2 f p c cs)
  show ?case
  proof (cases "p \<noteq> [] \<and> prefix (map f p) (map f (c # cs))")
    case True
    then obtain ps where ps: "hlScan f p (drop (length p) (c # cs)) = render ps"
        "content ps = drop (length p) (c # cs)"
      using 2(1) by blast
    let ?qs = "Red # Txt (take (length p) (c # cs)) # Reset # ps"
    have "hlScan f p (c # cs) = render ?qs" using True ps(1) by (simp add: hlScan.simps(2))
    moreover have "content ?qs = c # cs" using ps(2) by simp
    ultimately show ?thesis by blast
  next
    case False
    then obtain ps where ps: "hlScan f p cs = render ps" "content ps = cs"
      using 2(2) by blast
    have "hlScan f p (c # cs) = render (Txt [c] # ps)"
      using False ps(1) by (auto simp: hlScan.simps(2))
    moreover have "content (Txt [c] # ps) = c # cs" using ps(2) by simp
    ultimately show ?thesis by blast
  qed
qed


text \<open>
  The scan wraps spans of the line that equal the pattern under the byte map, in the
  line's own bytes.
\<close>

lemma hlScan_spans:
  "\<exists>ps. hlScan f p s = render ps \<and> content ps = s
        \<and> list_all (\<lambda>e. map f e = map f p) (spans ps)"
proof (induction f p s rule: hlScan.induct)
  case (1 f p)
  have "hlScan f p [] = render [] \<and> content [] = []
          \<and> list_all (\<lambda>e. map f e = map f p) (spans [])" by simp
  then show ?case by blast
next
  case (2 f p c cs)
  show ?case
  proof (cases "p \<noteq> [] \<and> prefix (map f p) (map f (c # cs))")
    case True
    then obtain ps where ps: "hlScan f p (drop (length p) (c # cs)) = render ps"
        "content ps = drop (length p) (c # cs)" "list_all (\<lambda>e. map f e = map f p) (spans ps)"
      using 2(1) by blast
    let ?e = "take (length p) (c # cs)"
    let ?qs = "Red # Txt ?e # Reset # ps"
    have e: "map f ?e = map f p"
      using True by (metis append_eq_conv_conj length_map prefix_def take_map)
    have "hlScan f p (c # cs) = render ?qs" using True ps(1) by (simp add: hlScan.simps(2))
    moreover have "content ?qs = c # cs" using ps(2) by simp
    moreover have "list_all (\<lambda>e. map f e = map f p) (spans ?qs)" using ps(3) e by simp
    ultimately show ?thesis by blast
  next
    case False
    then obtain ps where ps: "hlScan f p cs = render ps" "content ps = cs"
        "list_all (\<lambda>e. map f e = map f p) (spans ps)"
      using 2(2) by blast
    have "hlScan f p (c # cs) = render (Txt [c] # ps)"
      using False ps(1) by (auto simp: hlScan.simps(2))
    moreover have "content (Txt [c] # ps) = c # cs" using ps(2) by simp
    moreover have "list_all (\<lambda>e. map f e = map f p) (spans (Txt [c] # ps))"
      using ps(3) by (cases ps rule: spans.cases) simp_all
    ultimately show ?thesis by blast
  qed
qed

lemma Contains_appendI1: "Contains a m \<Longrightarrow> Contains (a @ b) m"
  by (auto simp: Contains_iff_substring) (metis append.assoc)

lemma Contains_appendI2: "Contains b m \<Longrightarrow> Contains (a @ b) m"
  by (auto simp: Contains_iff_substring) (metis append.assoc)

lemma prefix_before_head:
  assumes "prefix (e # r) (s @ t)" "e \<notin> set r" "t = [] \<or> hd t = e" "s \<noteq> []"
  shows "prefix (e # r) s"
proof (rule ccontr)
  assume n: "\<not> prefix (e # r) s"
  from assms(1) have "prefix (e # r) s \<or> (\<exists>u. u \<noteq> [] \<and> prefix u t \<and> e # r = s @ u)"
    by (auto simp: prefix_append)
  then obtain u where u: "u \<noteq> []" "prefix u t" "e # r = s @ u" using n by blast
  then have t: "t \<noteq> []" "hd u = hd t" by (auto simp: prefix_def)
  then have "hd u = e" using assms(3) by simp
  moreover note assms(4)
  ultimately have "e \<in> set r" using u(1,3) by (cases s; cases u) auto
  then show False using assms(2) by simp
qed

lemma ReplaceAll_append_at_head:
  assumes "e \<notin> set r" "t = [] \<or> hd t = e"
  shows "ReplaceAll (s @ t) (e # r) new = ReplaceAll s (e # r) new @ ReplaceAll t (e # r) new"
proof (induction "length s" arbitrary: s rule: less_induct)
  case less
  show ?case
  proof (cases s)
    case Nil
    then show ?thesis by (simp add: ReplaceAll_Nil)
  next
    case (Cons c cs)
    show ?thesis
    proof (cases "prefix (e # r) (s @ t)")
      case True
      then have p: "prefix (e # r) s"
        using assms Cons by (intro prefix_before_head [of e r s t]) simp_all
      then have l: "length (e # r) \<le> length s" by (rule prefix_length_le)
      then have "length (drop (length (e # r)) s) < length s" using Cons by simp
      then have ih: "ReplaceAll (drop (length (e # r)) s @ t) (e # r) new
                  = ReplaceAll (drop (length (e # r)) s) (e # r) new @ ReplaceAll t (e # r) new"
        using less by blast
      have "ReplaceAll (s @ t) (e # r) new
              = new @ ReplaceAll (drop (length (e # r)) (s @ t)) (e # r) new"
        using True by (intro ReplaceAll_prefix) simp_all
      also have "drop (length (e # r)) (s @ t) = drop (length (e # r)) s @ t"
        using l by simp
      finally show ?thesis
        using ih ReplaceAll_prefix [OF p, of new] by simp
    next
      case False
      then have n: "\<not> prefix (e # r) (c # cs)" using Cons by (auto simp: prefix_def)
      have "ReplaceAll (s @ t) (e # r) new = c # ReplaceAll (cs @ t) (e # r) new"
        using False Cons ReplaceAll_skip [of "e # r" c "cs @ t" new] by simp
      moreover have "ReplaceAll (cs @ t) (e # r) new
                       = ReplaceAll cs (e # r) new @ ReplaceAll t (e # r) new"
        using less Cons by simp
      ultimately show ?thesis using ReplaceAll_skip [OF n, of new] Cons by simp
    qed
  qed
qed


lemma ReplaceAll_Red_split:
  "t = [] \<or> hd t = CHR 0x1B \<Longrightarrow>
   ReplaceAll (s @ t) ColorRed new = ReplaceAll s ColorRed new @ ReplaceAll t ColorRed new"
  unfolding ColorRed_def by (rule ReplaceAll_append_at_head) simp_all

lemma ReplaceAll_Reset_split:
  "t = [] \<or> hd t = CHR 0x1B \<Longrightarrow>
   ReplaceAll (s @ t) ColorReset new = ReplaceAll s ColorReset new @ ReplaceAll t ColorReset new"
  unfolding ColorReset_def by (rule ReplaceAll_append_at_head) simp_all

lemma ReplaceAll_Red_over_Reset:
  "ReplaceAll (ColorReset @ x) ColorRed new = ColorReset @ ReplaceAll x ColorRed new"
  by (simp add: ColorReset_def ColorRed_def ReplaceAll_skip)

lemma ReplaceAll_Red_at_Red:
  "ReplaceAll (ColorRed @ x) ColorRed new = new @ ReplaceAll x ColorRed new"
  using ReplaceAll_prefix [of ColorRed "ColorRed @ x" new] by (simp add: ColorRed_def)

lemma ReplaceAll_Reset_at_Reset:
  "ReplaceAll (ColorReset @ x) ColorReset new = new @ ReplaceAll x ColorReset new"
  using ReplaceAll_prefix [of ColorReset "ColorReset @ x" new] by (simp add: ColorReset_def)

lemma hd_markers: "hd (ColorRed @ x) = CHR 0x1B" "hd (ColorReset @ x) = CHR 0x1B"
  by (simp_all add: ColorRed_def ColorReset_def)

lemma ReplaceAll_Red_in_Reset:
  "ReplaceAll (take k ColorReset @ ColorRed @ drop k ColorReset @ x) ColorRed []
     = ColorReset @ ReplaceAll x ColorRed []"
proof -
  consider "k = 0" | "k = 1" | "k = 2" | "k = 3" | "4 \<le> k" by linarith
  then show ?thesis
  proof cases
    case 1
    then show ?thesis by (simp add: ReplaceAll_Red_at_Red ReplaceAll_Red_over_Reset)
  next
    case 2
    have "ReplaceAll (CHR 0x1B # ColorRed @ ''[0m'' @ x) ColorRed []
            = CHR 0x1B # ReplaceAll (ColorRed @ ''[0m'' @ x) ColorRed []"
      by (rule ReplaceAll_skip) (simp add: ColorRed_def)
    then show ?thesis
      using 2 by (simp add: ReplaceAll_Red_at_Red) (simp add: ColorReset_def ColorRed_def ReplaceAll_skip)
  next
    case 3
    have "ReplaceAll (CHR 0x1B # CHR ''['' # ColorRed @ ''0m'' @ x) ColorRed []
            = CHR 0x1B # CHR ''['' # ReplaceAll (ColorRed @ ''0m'' @ x) ColorRed []"
      by (simp add: ReplaceAll_skip ColorRed_def)
    then show ?thesis
      using 3 by (simp add: ReplaceAll_Red_at_Red numeral_2_eq_2)
                 (simp add: ColorReset_def ColorRed_def ReplaceAll_skip)
  next
    case 4
    have "ReplaceAll (CHR 0x1B # CHR ''['' # CHR ''0'' # ColorRed @ ''m'' @ x) ColorRed []
            = CHR 0x1B # CHR ''['' # CHR ''0'' # ReplaceAll (ColorRed @ ''m'' @ x) ColorRed []"
      by (simp add: ReplaceAll_skip ColorRed_def)
    then show ?thesis
      using 4 by (simp add: ReplaceAll_Red_at_Red numeral_3_eq_3)
                 (simp add: ColorReset_def ColorRed_def ReplaceAll_skip)
  next
    case 5
    then have "length ColorReset \<le> k" by (simp add: ColorReset_def)
    then show ?thesis by (simp add: ReplaceAll_Red_over_Reset ReplaceAll_Red_at_Red)
  qed
qed

lemma delete_Red_render:
  "\<not> Contains (acc @ content ps) ColorRed \<Longrightarrow>
   ReplaceAll (acc @ render ps) ColorRed [] = acc @ render (afterRed ps)"
proof (induction ps arbitrary: acc rule: render.induct)
  case 1
  then show ?case by (simp add: ReplaceAll_no_occurrence)
next
  case (2 s ps)
  then show ?case using 2(1) [of "acc @ s"] by simp
next
  case (3 ps)
  have a: "\<not> Contains acc ColorRed" using 3(2) Contains_appendI1 by auto
  have b: "\<not> Contains ([] @ content ps) ColorRed" using 3(2) Contains_appendI2 by auto
  have "ReplaceAll (acc @ (ColorRed @ render ps)) ColorRed []
          = ReplaceAll acc ColorRed [] @ ReplaceAll (ColorRed @ render ps) ColorRed []"
    by (rule ReplaceAll_Red_split) (simp add: hd_markers)
  then show ?case
    using 3(1) [OF b] a by (simp add: ReplaceAll_no_occurrence ReplaceAll_Red_at_Red)
next
  case (4 ps)
  have a: "\<not> Contains acc ColorRed" using 4(2) Contains_appendI1 by auto
  have b: "\<not> Contains ([] @ content ps) ColorRed" using 4(2) Contains_appendI2 by auto
  have "ReplaceAll (acc @ (ColorReset @ render ps)) ColorRed []
          = ReplaceAll acc ColorRed [] @ ReplaceAll (ColorReset @ render ps) ColorRed []"
    by (rule ReplaceAll_Red_split) (simp add: hd_markers)
  then show ?case
    using 4(1) [OF b] a by (simp add: ReplaceAll_no_occurrence ReplaceAll_Red_over_Reset)
next
  case (5 k ps)
  let ?cut = "take k ColorReset @ ColorRed @ drop k ColorReset @ render ps"
  have a: "\<not> Contains acc ColorRed" using 5(2) Contains_appendI1 by auto
  have b: "\<not> Contains ([] @ content ps) ColorRed" using 5(2) Contains_appendI2 by auto
  have "hd ?cut = CHR 0x1B"
    by (cases k) (simp_all add: ColorRed_def ColorReset_def)
  then have "ReplaceAll (acc @ ?cut) ColorRed []
          = ReplaceAll acc ColorRed [] @ ReplaceAll ?cut ColorRed []"
    by (intro ReplaceAll_Red_split) simp
  then show ?case
    using 5(1) [OF b] a by (simp add: ReplaceAll_no_occurrence ReplaceAll_Red_in_Reset)
qed

lemma delete_Reset_render:
  "\<not> Contains (acc @ content ps) ColorReset \<Longrightarrow>
   ReplaceAll (acc @ render (afterRed ps)) ColorReset [] = acc @ content ps"
proof (induction ps arbitrary: acc rule: render.induct)
  case 1
  then show ?case by (simp add: ReplaceAll_no_occurrence)
next
  case (2 s ps)
  then show ?case using 2(1) [of "acc @ s"] by simp
next
  case (3 ps)
  then show ?case by simp
next
  case (4 ps)
  have a: "\<not> Contains acc ColorReset" using 4(2) Contains_appendI1 by auto
  have b: "\<not> Contains ([] @ content ps) ColorReset" using 4(2) Contains_appendI2 by auto
  have "ReplaceAll (acc @ (ColorReset @ render (afterRed ps))) ColorReset []
          = ReplaceAll acc ColorReset []
              @ ReplaceAll (ColorReset @ render (afterRed ps)) ColorReset []"
    by (rule ReplaceAll_Reset_split) (simp add: hd_markers)
  then show ?case
    using 4(1) [OF b] a by (simp add: ReplaceAll_no_occurrence ReplaceAll_Reset_at_Reset)
next
  case (5 k ps)
  have a: "\<not> Contains acc ColorReset" using 5(2) Contains_appendI1 by auto
  have b: "\<not> Contains ([] @ content ps) ColorReset" using 5(2) Contains_appendI2 by auto
  have "ReplaceAll (acc @ (ColorReset @ render (afterRed ps))) ColorReset []
          = ReplaceAll acc ColorReset []
              @ ReplaceAll (ColorReset @ render (afterRed ps)) ColorReset []"
    by (rule ReplaceAll_Reset_split) (simp add: hd_markers)
  then show ?case
    using 5(1) [OF b] a by (simp add: ReplaceAll_no_occurrence ReplaceAll_Reset_at_Reset)
qed

lemma stripMarkers_render:
  assumes "\<not> Contains (content ps) ColorRed" "\<not> Contains (content ps) ColorReset"
  shows "stripMarkers (render ps) = content ps"
proof -
  have "ReplaceAll (render ps) ColorRed [] = render (afterRed ps)"
    using delete_Red_render [of "[]" ps] assms(1) by simp
  moreover have "ReplaceAll (render (afterRed ps)) ColorReset [] = content ps"
    using delete_Reset_render [of "[]" ps] assms(2) by simp
  ultimately show ?thesis by (simp add: stripMarkers_def)
qed

lemma stripMarkers_hlScan:
  assumes "\<not> Contains s ColorRed" "\<not> Contains s ColorReset"
  shows "stripMarkers (hlScan f p s) = s"
  using hlScan_render [of f p s] stripMarkers_render assms by metis
















text \<open>Patterns of that kind.\<close>

lemma first_byte_occurs:
  assumes "Contains (b @ c) P" "length c < length P"
  shows "hd P \<in> set b"
proof -
  obtain u v where uv: "b @ c = u @ P @ v"
    using assms(1) unfolding Contains_iff_substring by blast
  then have "length b + length c = length u + length P + length v"
    by (metis length_append add.assoc)
  then have l: "length u < length b" using assms(2) by simp
  obtain q qs where q: "P = q # qs" using assms(2) by (cases P) auto
  have "(u @ P @ v) ! length u = q" using q by simp
  moreover have "(b @ c) ! length u = b ! length u" using l by (simp add: nth_append)
  ultimately have "q = b ! length u" using uv by simp
  then show ?thesis using l q by simp
qed

lemma markerSafe_first_byte:
  assumes "P \<noteq> []" "CHR 0x1B \<notin> set P" "hd P \<notin> set (ColorRed @ ColorReset)"
  shows "markerSafe P"
proof -
  have "\<not> Contains (tl ColorRed @ butlast P) P"
  proof
    assume "Contains (tl ColorRed @ butlast P) P"
    moreover have "length (butlast P) < length P"
      using assms(1) by (cases P rule: rev_cases) simp_all
    ultimately have "hd P \<in> set (tl ColorRed)" by (rule first_byte_occurs)
    then show False using assms(3) by (auto simp: ColorRed_def)
  qed
  moreover have "\<not> Contains (butlast ColorReset) P"
  proof
    assume "Contains (butlast ColorReset) P"
    then have "hd P \<in> set (butlast ColorReset)"
      using assms(1) first_byte_occurs [of "butlast ColorReset" "[]" P] by simp
    then show False using assms(3) by (auto simp: ColorReset_def)
  qed
  ultimately show ?thesis using assms(2) by (simp add: markerSafe_def)
qed

lemma markerSafe_examples:
  "markerSafe ''item''" "markerSafe ''x1''" "markerSafe ''main''" "markerSafe ''0m''"
  "\<not> markerSafe ''m''" "\<not> markerSafe ''0''" "\<not> markerSafe ''31m''" "\<not> markerSafe [CHR 0x1B]"
  by (simp_all add: markerSafe_def Contains_def ColorRed_def ColorReset_def)

lemma highlightMatches_caseSensitive:
  "pat \<noteq> [] \<Longrightarrow> highlightMatches ul line pat fs False = Some (Done (hlScan (\<lambda>c. c) pat line))"
  by (simp add: highlightMatches_def ReplaceAll_hlScan)

lemma ToLower_ascii: "isASCII s \<Longrightarrow> ToLower ul s = map lowerByte s"
  by (simp add: ToLower_def)

lemma highlightMatches_ignoreCase_ascii:
  assumes "pat \<noteq> []" "isASCII line" "isASCII pat"
  shows "highlightMatches ul line pat fs True = Some (Done (hlScan lowerByte pat line))"
proof (cases "line = []")
  case True
  then show ?thesis using assms(1) by (simp add: highlightMatches_def highlightIgnoreCase_def)
next
  case False
  have "highlightLoop line pat (map lowerByte line) (map lowerByte pat) 0 []
          = Some (Done ([] @ hlScan lowerByte pat (drop 0 line)))"
    using assms(1) by (intro highlightLoop_hlScan) simp_all
  then show ?thesis
    using False assms by (simp add: highlightMatches_def highlightIgnoreCase_def ToLower_ascii)
qed

text \<open>
  On ASCII lines and patterns the ignore-case highlighter returns the line with markers
  around spans of the line that equal the pattern up to case.
\<close>

lemma highlightMatches_ignoreCase_ascii_spans:
  assumes "pat \<noteq> []" "isASCII line" "isASCII pat"
  shows "\<exists>ps. highlightMatches ul line pat fs True = Some (Done (render ps)) \<and> content ps = line
           \<and> list_all (\<lambda>e. map lowerByte e = map lowerByte pat) (spans ps)"
  using highlightMatches_ignoreCase_ascii [OF assms, of ul fs] hlScan_spans [of lowerByte pat line]
  by auto






lemmas hl_eval = highlightMatches_def highlightIgnoreCase_def highlightLoop.simps
  ReplaceAll.simps ToLower_def isASCII_def lowerByte_def eq_char_of_iff char_of_eq_iff
  sliceFrom_def slice_def ColorRed_def ColorReset_def stripMarkers_def Contains_def

lemma highlightLoop_ends:
  assumes "pat \<noteq> []"
  shows "\<exists>r. highlightLoop line pat lowerLine lowerPattern lastIndex result = Some r"
proof (induction "length line - lastIndex" arbitrary: lastIndex result rule: less_induct)
  case less
  show ?case
  proof (cases "sliceFrom lowerLine lastIndex")
    case Panic
    then show ?thesis by (subst highlightLoop.simps) simp
  next
    case (Done rest)
    show ?thesis
    proof (cases "Index rest lowerPattern")
      case None
      then show ?thesis
        using Done by (subst highlightLoop.simps) (simp split: outcome.splits)
    next
      case (Some i)
      show ?thesis
      proof (cases "lastIndex + i + length pat > length line")
        case True
        then show ?thesis
          using Done Some by (subst highlightLoop.simps) (simp split: outcome.splits)
      next
        case False
        then have "length line - (lastIndex + i + length pat) < length line - lastIndex"
          using assms by (cases pat) auto
        then obtain r where
          "highlightLoop line pat lowerLine lowerPattern (lastIndex + i + length pat)
             (result @ take i (drop lastIndex line) @ ColorRed
                @ take (length pat) (drop (lastIndex + i) line) @ ColorReset) = Some r"
          using less by blast
        then show ?thesis
          using Done Some False
          by (subst highlightLoop.simps) (simp add: slice_def Let_def)
      qed
    qed
  qed
qed

lemma highlightLoop_inserts:
  assumes "pat \<noteq> []" "lastIndex \<le> length line"
    and "highlightLoop line pat lowerLine lowerPattern lastIndex result = Some (Done shown)"
  shows "\<exists>ps. shown = result @ render ps \<and> content ps = drop lastIndex line"
  using assms(2,3)
proof (induction "length line - lastIndex" arbitrary: lastIndex result rule: less_induct)
  case less
  have tail: "\<exists>ps. result @ drop lastIndex line = result @ render ps
                \<and> content ps = drop lastIndex line"
  proof -
    have "result @ drop lastIndex line = result @ render [Txt (drop lastIndex line)]
            \<and> content [Txt (drop lastIndex line)] = drop lastIndex line" by simp
    then show ?thesis by blast
  qed
  show ?case
  proof (cases "sliceFrom lowerLine lastIndex")
    case Panic
    then show ?thesis using less.prems(2) by (subst (asm) highlightLoop.simps) simp
  next
    case (Done rest)
    show ?thesis
    proof (cases "Index rest lowerPattern")
      case None
      then have "shown = result @ drop lastIndex line"
        using Done less.prems
        by (subst (asm) highlightLoop.simps) (simp add: sliceFrom_def)
      then show ?thesis using tail by simp
    next
      case (Some i)
      show ?thesis
      proof (cases "lastIndex + i + length pat > length line")
        case True
        then have "shown = result @ drop lastIndex line"
          using Done Some less.prems
          by (subst (asm) highlightLoop.simps) (simp add: sliceFrom_def)
        then show ?thesis using tail by simp
      next
        case False
        let ?seg = "take i (drop lastIndex line)"
        let ?orig = "take (length pat) (drop (lastIndex + i) line)"
        have lt: "length line - (lastIndex + i + length pat) < length line - lastIndex"
          using False assms(1) by (cases pat) auto
        have le: "lastIndex + i + length pat \<le> length line" using False by simp
        have "highlightLoop line pat lowerLine lowerPattern (lastIndex + i + length pat)
                (result @ ?seg @ ColorRed @ ?orig @ ColorReset) = Some (Done shown)"
          using Done Some False less.prems(2)
          by (subst (asm) highlightLoop.simps) (simp add: slice_def Let_def)
        then obtain ps where ps: "shown = (result @ ?seg @ ColorRed @ ?orig @ ColorReset) @ render ps"
            "content ps = drop (lastIndex + i + length pat) line"
          using less.hyps [OF lt le] by blast
        let ?qs = "Txt ?seg # Red # Txt ?orig # Reset # ps"
        have "shown = result @ render ?qs" using ps(1) by simp
        moreover have "content ?qs = drop lastIndex line"
        proof -
          have a: "drop lastIndex line = ?seg @ drop i (drop lastIndex line)"
            by (metis append_take_drop_id)
          have b: "drop i (drop lastIndex line) = drop (lastIndex + i) line"
            by (simp add: add.commute)
          have c: "drop (lastIndex + i) line
                     = ?orig @ drop (length pat) (drop (lastIndex + i) line)"
            by (metis append_take_drop_id)
          have d: "drop (length pat) (drop (lastIndex + i) line)
                     = drop (lastIndex + i + length pat) line"
            by (simp add: add.commute)
          have e: "drop lastIndex line = ?seg @ drop (lastIndex + i) line"
            using a unfolding b .
          have f: "drop (lastIndex + i) line = ?orig @ drop (lastIndex + i + length pat) line"
            using c unfolding d .
          have "content ?qs = ?seg @ (?orig @ drop (lastIndex + i + length pat) line)"
            using ps(2) by simp
          also have "\<dots> = ?seg @ drop (lastIndex + i) line"
            by (simp only: f [symmetric])
          also have "\<dots> = drop lastIndex line"
            by (rule e [symmetric])
          finally show ?thesis .
        qed
        ultimately show ?thesis by blast
      qed
    qed
  qed
qed

text \<open>
  In ignore-case mode, whatever lower-casing does to byte lengths, the highlighter ends;
  it panics or returns the line with markers inserted.
\<close>

lemma highlightIgnoreCase_ends_panic_or_inserts:
  "highlightIgnoreCase ul line pat = Some Panic
   \<or> (\<exists>ps. highlightIgnoreCase ul line pat = Some (Done (render ps)) \<and> content ps = line)"
proof (cases "length line = 0 \<or> length pat = 0")
  case True
  have "line = render [Txt line] \<and> content [Txt line] = line" by simp
  then show ?thesis using True unfolding highlightIgnoreCase_def by (metis (full_types))
next
  case False
  then have p: "pat \<noteq> []" by simp
  obtain r where r: "highlightLoop line pat (ToLower ul line) (ToLower ul pat) 0 [] = Some r"
    using highlightLoop_ends [OF p] by blast
  show ?thesis
  proof (cases r)
    case Panic
    then show ?thesis using r False by (simp add: highlightIgnoreCase_def)
  next
    case (Done shown)
    then obtain ps where "shown = [] @ render ps" "content ps = drop 0 line"
      using highlightLoop_inserts [OF p, of 0 line] r by blast
    then show ?thesis using r Done False by (auto simp: highlightIgnoreCase_def)
  qed
qed

text \<open>
  Highlighting once only inserts markers: in case-sensitive mode for every line, in
  ignore-case mode for ASCII lines and patterns.
\<close>

lemma stripMarkers_highlightMatches:
  assumes "pat \<noteq> []" "\<not> Contains line ColorRed" "\<not> Contains line ColorReset"
    and "ic \<longrightarrow> isASCII line \<and> isASCII pat"
  shows "\<exists>shown. highlightMatches ul line pat fs ic = Some (Done shown) \<and> stripMarkers shown = line"
proof (cases ic)
  case True
  then show ?thesis
    using assms by (simp add: highlightMatches_ignoreCase_ascii stripMarkers_hlScan)
next
  case False
  then show ?thesis
    using assms by (simp add: highlightMatches_caseSensitive stripMarkers_hlScan)
qed

section \<open>Claims about highlighting\<close>

text \<open>
  C7. The claim: for every line and pattern the ignore-case highlighter wraps each matched
  span in its casing from the line, and stops without emphasis when a span would run past
  the end of the line. The offsets are found in the lower-cased line and applied to the
  line itself, and lower-casing can change byte lengths: the Kelvin sign U+212A (bytes
  \<open>E2 84 AA\<close>) becomes \<open>k\<close>. Whenever \<open>strings.ToLower\<close> does so: for the line of the
  Kelvin sign followed by \<open>x\<close> and the pattern \<open>x\<close>, the byte \<open>84\<close> in the middle of the
  sign is wrapped and the \<open>x\<close> that matched is not; and for the Kelvin sign as line and
  pattern, the sign is wrapped and the next round of the loop slices the lower-cased line
  (one byte) from offset three, so that the program panics.
\<close>

theorem highlightIgnoreCase_byte_offsets:
  "ul [CHR 0xE2, CHR 0x84, CHR 0xAA, CHR ''x''] = ''kx'' \<and> ul [CHR 0xE2, CHR 0x84, CHR 0xAA] = ''k''
   \<Longrightarrow>
   highlightIgnoreCase ul [CHR 0xE2, CHR 0x84, CHR 0xAA, CHR ''x''] ''x''
     = Some (Done ([CHR 0xE2] @ ColorRed @ [CHR 0x84] @ ColorReset @ [CHR 0xAA, CHR ''x'']))
   \<and> highlightIgnoreCase ul [CHR 0xE2, CHR 0x84, CHR 0xAA] [CHR 0xE2, CHR 0x84, CHR 0xAA]
       = Some Panic"
  by (simp add: hl_eval)

theorem highlightIgnoreCase_byte_offsets_witness:
  "highlightIgnoreCase kelvinLower [CHR 0xE2, CHR 0x84, CHR 0xAA, CHR ''x''] ''x''
     = Some (Done ([CHR 0xE2] @ ColorRed @ [CHR 0x84] @ ColorReset @ [CHR 0xAA, CHR ''x'']))
   \<and> highlightIgnoreCase kelvinLower [CHR 0xE2, CHR 0x84, CHR 0xAA] [CHR 0xE2, CHR 0x84, CHR 0xAA]
       = Some Panic"
  using highlightIgnoreCase_byte_offsets [of kelvinLower] by (simp add: kelvinLower_def)




text \<open>
  C10. The claim: for every line without marker sequences and every non-empty pattern,
  deleting the markers from the highlighted line gives the line back, in either mode. In
  ignore-case mode there is no highlighted line when the pattern loses bytes in
  lower-casing: for the Kelvin sign as line and pattern, whenever \<open>strings.ToLower\<close> gives
  \<open>k\<close> for it, the second round of the loop slices the lower-cased line (one byte) from
  offset three and the program panics.
\<close>

theorem highlightMatches_panics:
  "ul [CHR 0xE2, CHR 0x84, CHR 0xAA] = ''k'' \<Longrightarrow>
   \<not> Contains [CHR 0xE2, CHR 0x84, CHR 0xAA] ColorRed
   \<and> \<not> Contains [CHR 0xE2, CHR 0x84, CHR 0xAA] ColorReset
   \<and> highlightMatches ul [CHR 0xE2, CHR 0x84, CHR 0xAA] [CHR 0xE2, CHR 0x84, CHR 0xAA] fs True
       = Some Panic"
  by (simp add: hl_eval)

theorem highlightMatches_panics_witness:
  "highlightMatches kelvinLower [CHR 0xE2, CHR 0x84, CHR 0xAA] [CHR 0xE2, CHR 0x84, CHR 0xAA]
     False True = Some Panic"
  using highlightMatches_panics [of kelvinLower False] by (simp add: kelvinLower_def)

end
